theory Spec2Isabelle
  imports
    Main
    "HOL-Library.Word"
    "HOL-Library.Char_ord"
    "HOL-Library.List_Lexorder"
    "HOL-Library.Product_Lexorder"
begin

section \<open>PET BASIC 2.0/4.0 tokenizer (tokenize-4.0.py)\<close>

text \<open>
  The development embeds the two functions of \<^verbatim>\<open>tokenize-4.0.py\<close> that carry the
  program's logic, \<^verbatim>\<open>tokenize_line\<close> and \<^verbatim>\<open>create_prg\<close>, together with the keyword
  table they read.

  Data. A byte of a \<^verbatim>\<open>bytearray\<close> is an \<open>8 word\<close>. Python integers (line numbers,
  addresses) are \<open>int\<close>. Source text is a \<open>string\<close>: a list of characters with code
  points 0 to 255, the characters for which \<^verbatim>\<open>result.append(ord(char))\<close> stores a
  byte; a character above U+00FF makes that call raise \<^verbatim>\<open>ValueError\<close>, and text with
  such characters is outside the model. The Python predicates \<^verbatim>\<open>str.isalpha\<close>, \<^verbatim>\<open>str.isalnum\<close> and the mapping
  \<^verbatim>\<open>str.upper\<close> are written out for these 256 characters, including the ones above
  0x7F (for instance \<^verbatim>\<open>'\xdf'.upper()\<close> is the two characters \<^verbatim>\<open>'SS'\<close>, and
  \<^verbatim>\<open>'\xff'.upper()\<close> is the code point 0x178), so an uppercased slice is a list of
  code points.
\<close>

type_synonym byte = "8 word"

subsection \<open>Characters\<close>

definition py_ord :: "char \<Rightarrow> nat" where
  "py_ord c = of_char c"

definition ord_byte :: "char \<Rightarrow> byte" where
  "ord_byte c = of_nat (py_ord c)"

definition py_isalpha :: "char \<Rightarrow> bool" where
  "py_isalpha c =
     (let n = py_ord c in
      (0x41 \<le> n \<and> n \<le> 0x5A) \<or> (0x61 \<le> n \<and> n \<le> 0x7A) \<or> n = 0xAA \<or> n = 0xB5 \<or>
      n = 0xBA \<or> (0xC0 \<le> n \<and> n \<le> 0xD6) \<or> (0xD8 \<le> n \<and> n \<le> 0xF6) \<or> 0xF8 \<le> n)"

definition py_isalnum :: "char \<Rightarrow> bool" where
  "py_isalnum c =
     (let n = py_ord c in
      py_isalpha c \<or> (0x30 \<le> n \<and> n \<le> 0x39) \<or> n = 0xB2 \<or> n = 0xB3 \<or> n = 0xB9 \<or>
      (0xBC \<le> n \<and> n \<le> 0xBE))"

definition py_upper :: "char \<Rightarrow> nat list" where
  "py_upper c =
     (let n = py_ord c in
      if 0x61 \<le> n \<and> n \<le> 0x7A then [n - 32]
      else if n = 0xB5 then [0x39C]
      else if n = 0xDF then [0x53, 0x53]
      else if (0xE0 \<le> n \<and> n \<le> 0xF6) \<or> (0xF8 \<le> n \<and> n \<le> 0xFE) then [n - 32]
      else if n = 0xFF then [0x178]
      else [n])"

definition str_upper :: "string \<Rightarrow> nat list" where
  "str_upper s = concat (map py_upper s)"

definition codepoints :: "string \<Rightarrow> nat list" where
  "codepoints s = map py_ord s"

text \<open>The slice \<^verbatim>\<open>s[i:j]\<close> for non-negative bounds; it is cut at the end of \<open>s\<close>.\<close>

definition slice :: "'a list \<Rightarrow> nat \<Rightarrow> nat \<Rightarrow> 'a list" where
  "slice s i j = take (j - i) (drop i s)"

subsection \<open>The keyword table\<close>

text \<open>
  \<^verbatim>\<open>TOKENS\<close> is a dict literal; its items are listed in insertion order, which is the
  order \<^verbatim>\<open>TOKENS.items()\<close> hands to \<^verbatim>\<open>sorted\<close>.
\<close>

definition TOKENS :: "(string \<times> byte) list" where
  "TOKENS =
    [(''END'', 0x80), (''FOR'', 0x81), (''NEXT'', 0x82), (''DATA'', 0x83), (''INPUT#'', 0x84),
     (''INPUT'', 0x85), (''DIM'', 0x86), (''READ'', 0x87), (''LET'', 0x88), (''GOTO'', 0x89),
     (''RUN'', 0x8A), (''IF'', 0x8B), (''RESTORE'', 0x8C), (''GOSUB'', 0x8D), (''RETURN'', 0x8E),
     (''REM'', 0x8F), (''STOP'', 0x90), (''ON'', 0x91), (''WAIT'', 0x92), (''LOAD'', 0x93),
     (''SAVE'', 0x94), (''VERIFY'', 0x95), (''DEF'', 0x96), (''POKE'', 0x97), (''PRINT#'', 0x98),
     (''PRINT'', 0x99), (''CONT'', 0x9A), (''LIST'', 0x9B), (''CLR'', 0x9C), (''CMD'', 0x9D),
     (''SYS'', 0x9E), (''OPEN'', 0x9F), (''CLOSE'', 0xA0), (''GET'', 0xA1), (''NEW'', 0xA2),
     (''TAB('', 0xA3), (''TO'', 0xA4), (''FN'', 0xA5), (''SPC('', 0xA6), (''THEN'', 0xA7),
     (''NOT'', 0xA8), (''STEP'', 0xA9), (''+'', 0xAA), (''-'', 0xAB), (''*'', 0xAC), (''/'', 0xAD),
     (''^'', 0xAE), (''AND'', 0xAF), (''OR'', 0xB0), (''>'', 0xB1), (''='', 0xB2), (''<'', 0xB3),
     (''SGN'', 0xB4), (''INT'', 0xB5), (''ABS'', 0xB6), (''USR'', 0xB7), (''FRE'', 0xB8),
     (''POS'', 0xB9), (''SQR'', 0xBA), (''RND'', 0xBB), (''LOG'', 0xBC), (''EXP'', 0xBD),
     (''COS'', 0xBE), (''SIN'', 0xBF), (''TAN'', 0xC0), (''ATN'', 0xC1), (''PEEK'', 0xC2),
     (''LEN'', 0xC3), (''STR$'', 0xC4), (''VAL'', 0xC5), (''ASC'', 0xC6), (''CHR$'', 0xC7),
     (''LEFT$'', 0xC8), (''RIGHT$'', 0xC9), (''MID$'', 0xCA),
     (''CONCAT'', 0xCC), (''DOPEN'', 0xCD), (''DCLOSE'', 0xCE), (''RECORD'', 0xCF),
     (''HEADER'', 0xD0), (''COLLECT'', 0xD1), (''BACKUP'', 0xD2), (''COPY'', 0xD3),
     (''APPEND'', 0xD4), (''DSAVE'', 0xD5), (''DLOAD'', 0xD6), (''CATALOG'', 0xD7),
     (''RENAME'', 0xD8), (''SCRATCH'', 0xD9), (''DIRECTORY'', 0xDA)]"

text \<open>
  \<^verbatim>\<open>sorted(TOKENS.items(), key=lambda x: (-len(x[0]), x[0]))\<close>: a stable sort on the key
  (negated length, spelling), tuples and strings compared lexicographically.
\<close>

definition sort_key_fn :: "string \<times> byte \<Rightarrow> int \<times> string" where
  "sort_key_fn x = (- int (length (fst x)), fst x)"

definition SORTED_TOKENS :: "(string \<times> byte) list" where
  "SORTED_TOKENS = sort_key sort_key_fn TOKENS"

subsection \<open>\<^verbatim>\<open>tokenize_line\<close>\<close>

text \<open>
  The \<^verbatim>\<open>for token_name, token_value in SORTED_TOKENS\<close> loop at scan position \<open>i\<close>.
  It ends at the first candidate whose spelling equals the uppercased slice and that is
  not sent to \<^verbatim>\<open>continue\<close> by the word check; \<open>None\<close> is the loop running to its end
  with \<^verbatim>\<open>matched\<close> still false. No spelling of the table is empty, so \<^verbatim>\<open>token_name[0]\<close>
  always exists; the empty case is written as no word check.
\<close>

fun match_token :: "(string \<times> byte) list \<Rightarrow> string \<Rightarrow> nat \<Rightarrow> (string \<times> byte) option" where
  "match_token [] line_text i = None"
| "match_token ((token_name, token_value) # rest) line_text i =
     (if str_upper (slice line_text i (i + length token_name)) = codepoints token_name then
        (let next_char_idx = i + length token_name in
         if (case token_name of [] \<Rightarrow> False | c # _ \<Rightarrow> py_isalpha c)
            \<and> next_char_idx < length line_text
            \<and> (py_isalnum (line_text ! next_char_idx) \<or> line_text ! next_char_idx \<in> set ''$%'')
         then match_token rest line_text i
         else Some (token_name, token_value))
      else match_token rest line_text i)"

text \<open>The inner \<^verbatim>\<open>while i < len(line_text) and line_text[i] == ' '\<close> loop.\<close>

function skip_spaces :: "string \<Rightarrow> nat \<Rightarrow> nat" where
  "skip_spaces line_text i =
     (if i < length line_text \<and> line_text ! i = CHR '' '' then skip_spaces line_text (i + 1)
      else i)"
  by pat_completeness auto
termination
  by (relation "measure (\<lambda>(line_text, i). length line_text - i)") auto

declare skip_spaces.simps [simp del]

text \<open>
  The outer \<^verbatim>\<open>while i < len(line_text)\<close> loop, on the loop state
  \<open>(i, in_quote, in_rem, result)\<close>.
\<close>

function tokenize_loop :: "string \<Rightarrow> nat \<Rightarrow> bool \<Rightarrow> bool \<Rightarrow> byte list \<Rightarrow> byte list" where
  "tokenize_loop line_text i in_quote in_rem result =
     (if i < length line_text then
        (let char = line_text ! i in
         if char = CHR 0x22 then
           tokenize_loop line_text (i + 1) (\<not> in_quote) in_rem (result @ [ord_byte char])
         else if in_quote \<or> in_rem then
           tokenize_loop line_text (i + 1) in_quote in_rem (result @ [ord_byte char])
         else
           (case match_token SORTED_TOKENS line_text i of
              Some (token_name, token_value) \<Rightarrow>
                tokenize_loop line_text (skip_spaces line_text (i + length token_name)) in_quote
                  (if token_name = ''REM'' then True else in_rem) (result @ [token_value])
            | None \<Rightarrow>
                tokenize_loop line_text (i + 1) in_quote in_rem (result @ [ord_byte char])))
      else result)"
  by pat_completeness auto
termination
proof (relation "measure (\<lambda>(line_text, i, in_quote, in_rem, result). length line_text - i)")
  show "wf (measure (\<lambda>(line_text, i, in_quote, in_rem, result). length line_text - i))"
    by simp
next
  fix line_text :: string and i :: nat and in_quote in_rem :: bool and result :: "byte list"
    and char :: char and x2 :: "string \<times> byte" and token_name :: string and token_value :: byte
  assume lt: "i < length line_text"
    and m: "match_token SORTED_TOKENS line_text i = Some x2"
    and x2: "(token_name, token_value) = x2"
  have mem: "match_token L t j = Some p \<Longrightarrow> p \<in> set L" for L t j p
    by (induction L t j rule: match_token.induct) (auto split: if_splits simp: Let_def)
  have "\<forall>p \<in> set TOKENS. fst p \<noteq> []"
    by (simp add: TOKENS_def)
  then have ne: "\<forall>p \<in> set SORTED_TOKENS. fst p \<noteq> []"
    by (simp only: SORTED_TOKENS_def set_sort)
  have ge: "j \<le> skip_spaces t j" for t j
  proof (induction t j rule: skip_spaces.induct)
    case (1 t j)
    show ?case
    proof (cases "j < length t \<and> t ! j = CHR '' ''")
      case True
      with 1 have "j + 1 \<le> skip_spaces t (j + 1)" by simp
      moreover have "skip_spaces t j = skip_spaces t (j + 1)"
        using True by (subst skip_spaces.simps) simp
      ultimately show ?thesis by simp
    next
      case False
      then have "skip_spaces t j = j" by (subst skip_spaces.simps) auto
      then show ?thesis by simp
    qed
  qed
  from m x2 mem ne have "token_name \<noteq> []" by force
  then have "i < i + length token_name" by simp
  with ge [of "i + length token_name" line_text]
  have "i < skip_spaces line_text (i + length token_name)" by linarith
  with lt show "((line_text, skip_spaces line_text (i + length token_name), in_quote,
                  (if token_name = ''REM'' then True else in_rem), result @ [token_value]),
                 (line_text, i, in_quote, in_rem, result))
                \<in> measure (\<lambda>(line_text, i, in_quote, in_rem, result). length line_text - i)"
    by simp
qed auto

declare tokenize_loop.simps [simp del]

definition tokenize_line :: "string \<Rightarrow> byte list" where
  "tokenize_line line_text = tokenize_loop line_text 0 False False []"

subsection \<open>\<^verbatim>\<open>create_prg\<close>\<close>

text \<open>
  \<^verbatim>\<open>struct.pack('<H', n)\<close> raises \<^verbatim>\<open>struct.error\<close> unless \<open>0 \<le> n \<le> 65535\<close>, and
  \<^verbatim>\<open>struct.pack_into('<H', buf, off, n)\<close> raises it too when the two bytes do not fit
  in the buffer at \<open>off\<close>. Both are branches of the model.
\<close>

datatype py_error = StructError

definition pack_H :: "int \<Rightarrow> py_error + byte list" where
  "pack_H n =
     (if 0 \<le> n \<and> n \<le> 65535 then Inr [word_of_int (n mod 256), word_of_int (n div 256)]
      else Inl StructError)"

definition pack_into_H :: "byte list \<Rightarrow> nat \<Rightarrow> int \<Rightarrow> py_error + byte list" where
  "pack_into_H buf off n =
     (case pack_H n of
        Inl e \<Rightarrow> Inl e
      | Inr bs \<Rightarrow>
          if off + 2 \<le> length buf then Inr (buf[off := bs ! 0, off + 1 := bs ! 1])
          else Inl StructError)"

text \<open>
  One pass of the \<^verbatim>\<open>for line_num, line_text in basic_lines\<close> loop on the buffer
  \<open>prg\<close>: reserve the link slot, append line number, tokenized text and end marker, then
  patch the slot. The two debug prints go to the standard error stream and leave the buffer alone.
\<close>

fun add_line :: "int \<Rightarrow> byte list \<Rightarrow> int \<times> string \<Rightarrow> py_error + byte list" where
  "add_line load_addr prg (line_num, line_text) =
     (let line_start_offset = length prg;
          prg1 = prg @ [0, 0]
      in (case pack_H line_num of
            Inl e \<Rightarrow> Inl e
          | Inr num_bytes \<Rightarrow>
              (let prg2 = prg1 @ num_bytes;
                   tokenized = tokenize_line line_text;
                   prg3 = prg2 @ tokenized;
                   prg4 = prg3 @ [0];
                   next_link_addr = load_addr + int (length prg4) - 2
               in pack_into_H prg4 line_start_offset next_link_addr)))"

declare add_line.simps [simp del]

fun build_lines :: "int \<Rightarrow> byte list \<Rightarrow> (int \<times> string) list \<Rightarrow> py_error + byte list" where
  "build_lines load_addr prg [] = Inr prg"
| "build_lines load_addr prg (ln # rest) =
     (case add_line load_addr prg ln of
        Inl e \<Rightarrow> Inl e
      | Inr prg' \<Rightarrow> build_lines load_addr prg' rest)"

definition create_prg :: "(int \<times> string) list \<Rightarrow> int \<Rightarrow> py_error + byte list" where
  "create_prg basic_lines load_addr =
     (case pack_H load_addr of
        Inl e \<Rightarrow> Inl e
      | Inr prg0 \<Rightarrow>
          (case build_lines load_addr prg0 basic_lines of
             Inl e \<Rightarrow> Inl e
           | Inr prg \<Rightarrow> Inr (prg @ [0, 0])))"

text \<open>
  The main program after parsing: an empty list of lines prints a message and leaves with
  \<^verbatim>\<open>sys.exit(1)\<close> before \<^verbatim>\<open>create_prg\<close> is called or the output file is opened;
  otherwise the image built at the default load address is written.
\<close>

datatype outcome = Exit nat | Raised py_error | Written "byte list"

definition main_build :: "(int \<times> string) list \<Rightarrow> outcome" where
  "main_build lines =
     (if lines = [] then Exit 1
      else case create_prg lines 0x0401 of
             Inl e \<Rightarrow> Raised e
           | Inr prg_data \<Rightarrow> Written prg_data)"

subsection \<open>The PRG layout of the specification\<close>

text \<open>
  The image as the specification describes it, written from its words and not from the
  code: the load address, little-endian; then per line a record of forward link, line
  number, tokenized statement bytes and one zero byte, where the link is the load address
  plus the file offset right after the record, minus 2; then two zero bytes. \<open>off\<close> is
  the file offset at which the next record starts.
\<close>

definition le16 :: "int \<Rightarrow> byte list" where
  "le16 n = [word_of_int (n mod 256), word_of_int (n div 256)]"

fun spec_records :: "int \<Rightarrow> nat \<Rightarrow> (int \<times> string) list \<Rightarrow> byte list" where
  "spec_records load_addr off [] = []"
| "spec_records load_addr off ((line_num, line_text) # rest) =
     (let body = tokenize_line line_text;
          next_off = off + 2 + 2 + length body + 1
      in le16 (load_addr + int next_off - 2) @ le16 line_num @ body @ [0] @
         spec_records load_addr next_off rest)"

definition spec_prg_layout :: "(int \<times> string) list \<Rightarrow> int \<Rightarrow> byte list" where
  "spec_prg_layout basic_lines load_addr =
     le16 load_addr @ spec_records load_addr 2 basic_lines @ [0, 0]"

text \<open>
  The inputs on which no \<^verbatim>\<open>struct.pack\<close> of \<^verbatim>\<open>create_prg\<close> raises: load address and
  line numbers fit 16 bits, and so does the last link, the largest one, which is the
  address of the sentinel.
\<close>

definition fits_H :: "int \<Rightarrow> bool" where
  "fits_H n = (0 \<le> n \<and> n \<le> 65535)"

definition buildable :: "(int \<times> string) list \<Rightarrow> int \<Rightarrow> bool" where
  "buildable basic_lines load_addr =
     (fits_H load_addr \<and> list_all (\<lambda>ln. fits_H (fst ln)) basic_lines \<and>
      (basic_lines = [] \<or>
       load_addr + int (length (spec_prg_layout basic_lines load_addr)) - 4 \<le> 65535))"

text \<open>
  Reading an image back, as the interpreter that loads it does. \<open>link_at\<close> reads the
  little-endian word at a file offset. \<open>record_offsets 2 lines\<close> lists the file offsets
  at which the records of the lines start, followed by the offset of the sentinel.
  \<open>follow_links img load_addr n addr\<close> starts at the memory address \<open>addr\<close> and follows
  \<open>n\<close> links; memory address \<open>a\<close> is file offset \<open>a - load_addr + 2\<close>. It gives up
  (\<open>None\<close>) when a link field lies outside the image, when a link is 0 before the
  \<open>n\<close> hops are done, when a link does not point strictly forward, or when it points
  outside the image.
\<close>

definition link_at :: "byte list \<Rightarrow> nat \<Rightarrow> int" where
  "link_at img off = uint (img ! off) + 256 * uint (img ! (off + 1))"

fun record_offsets :: "nat \<Rightarrow> (int \<times> string) list \<Rightarrow> nat list" where
  "record_offsets off [] = [off]"
| "record_offsets off ((line_num, line_text) # rest) =
     off # record_offsets (off + 5 + length (tokenize_line line_text)) rest"

fun follow_links :: "byte list \<Rightarrow> int \<Rightarrow> nat \<Rightarrow> int \<Rightarrow> int option" where
  "follow_links img load_addr 0 addr = Some addr"
| "follow_links img load_addr (Suc n) addr =
     (let off = addr - load_addr + 2 in
      if 0 \<le> off \<and> nat off + 1 < length img then
        (let link = link_at img (nat off) in
         if link = 0 then None
         else if link \<le> addr then None
         else if length img \<le> nat (link - load_addr + 2) + 1 then None
         else follow_links img load_addr n link)
      else None)"

subsection \<open>Auxiliary notions for the proofs\<close>

text \<open>
  \<open>accepts\<close> is the condition under which the body of the candidate loop reaches
  \<^verbatim>\<open>result.append(token_value)\<close> for a spelling: the uppercased slice equals it and the
  word check does not \<^verbatim>\<open>continue\<close>.
\<close>

definition accepts :: "string \<Rightarrow> nat \<Rightarrow> string \<Rightarrow> bool" where
  "accepts line_text i token_name =
     (str_upper (slice line_text i (i + length token_name)) = codepoints token_name \<and>
      \<not> ((case token_name of [] \<Rightarrow> False | c # _ \<Rightarrow> py_isalpha c)
         \<and> i + length token_name < length line_text
         \<and> (py_isalnum (line_text ! (i + length token_name))
            \<or> line_text ! (i + length token_name) \<in> set ''$%'')))"

section \<open>Properties\<close>

subsection \<open>The table and the scan loops\<close>

lemma SORTED_TOKENS_eq [code]:
  "SORTED_TOKENS =
    [(''DIRECTORY'', 0xDA), (''CATALOG'', 0xD7), (''COLLECT'', 0xD1), (''RESTORE'', 0x8C),
     (''SCRATCH'', 0xD9), (''APPEND'', 0xD4), (''BACKUP'', 0xD2), (''CONCAT'', 0xCC),
     (''DCLOSE'', 0xCE), (''HEADER'', 0xD0), (''INPUT#'', 0x84), (''PRINT#'', 0x98),
     (''RECORD'', 0xCF), (''RENAME'', 0xD8), (''RETURN'', 0x8E), (''RIGHT$'', 0xC9),
     (''VERIFY'', 0x95), (''CLOSE'', 0xA0), (''DLOAD'', 0xD6), (''DOPEN'', 0xCD),
     (''DSAVE'', 0xD5), (''GOSUB'', 0x8D), (''INPUT'', 0x85), (''LEFT$'', 0xC8),
     (''PRINT'', 0x99), (''CHR$'', 0xC7), (''CONT'', 0x9A), (''COPY'', 0xD3),
     (''DATA'', 0x83), (''GOTO'', 0x89), (''LIST'', 0x9B), (''LOAD'', 0x93),
     (''MID$'', 0xCA), (''NEXT'', 0x82), (''OPEN'', 0x9F), (''PEEK'', 0xC2),
     (''POKE'', 0x97), (''READ'', 0x87), (''SAVE'', 0x94), (''SPC('', 0xA6),
     (''STEP'', 0xA9), (''STOP'', 0x90), (''STR$'', 0xC4), (''TAB('', 0xA3),
     (''THEN'', 0xA7), (''WAIT'', 0x92), (''ABS'', 0xB6), (''AND'', 0xAF),
     (''ASC'', 0xC6), (''ATN'', 0xC1), (''CLR'', 0x9C), (''CMD'', 0x9D),
     (''COS'', 0xBE), (''DEF'', 0x96), (''DIM'', 0x86), (''END'', 0x80),
     (''EXP'', 0xBD), (''FOR'', 0x81), (''FRE'', 0xB8), (''GET'', 0xA1),
     (''INT'', 0xB5), (''LEN'', 0xC3), (''LET'', 0x88), (''LOG'', 0xBC),
     (''NEW'', 0xA2), (''NOT'', 0xA8), (''POS'', 0xB9), (''REM'', 0x8F),
     (''RND'', 0xBB), (''RUN'', 0x8A), (''SGN'', 0xB4), (''SIN'', 0xBF),
     (''SQR'', 0xBA), (''SYS'', 0x9E), (''TAN'', 0xC0), (''USR'', 0xB7),
     (''VAL'', 0xC5), (''FN'', 0xA5), (''IF'', 0x8B), (''ON'', 0x91),
     (''OR'', 0xB0), (''TO'', 0xA4), (''*'', 0xAC), (''+'', 0xAA),
     (''-'', 0xAB), (''/'', 0xAD), (''<'', 0xB3), (''='', 0xB2),
     (''>'', 0xB1), (''^'', 0xAE)]"
  by code_simp

lemma skip_spaces_ge: "j \<le> skip_spaces t j"
proof (induction t j rule: skip_spaces.induct)
  case (1 t j)
  show ?case
  proof (cases "j < length t \<and> t ! j = CHR '' ''")
    case True
    with 1 have "j + 1 \<le> skip_spaces t (j + 1)" by simp
    moreover have "skip_spaces t j = skip_spaces t (j + 1)"
      using True by (subst skip_spaces.simps) simp
    ultimately show ?thesis by simp
  next
    case False
    then have "skip_spaces t j = j" by (subst skip_spaces.simps) auto
    then show ?thesis by simp
  qed
qed

lemma match_token_mem: "match_token L t j = Some p \<Longrightarrow> p \<in> set L"
  by (induction L t j rule: match_token.induct) (auto split: if_splits simp: Let_def)

lemma tokens_nonempty: "p \<in> set SORTED_TOKENS \<Longrightarrow> fst p \<noteq> []"
proof -
  have "\<forall>p \<in> set TOKENS. fst p \<noteq> []" by (simp add: TOKENS_def)
  then have "\<forall>p \<in> set SORTED_TOKENS. fst p \<noteq> []"
    by (simp only: SORTED_TOKENS_def set_sort)
  then show "p \<in> set SORTED_TOKENS \<Longrightarrow> fst p \<noteq> []" by blast
qed

lemma loop_end: "\<not> i < length t \<Longrightarrow> tokenize_loop t i q r res = res"
  by (subst tokenize_loop.simps) simp

lemma loop_quote:
  "i < length t \<Longrightarrow> t ! i = CHR 0x22 \<Longrightarrow>
   tokenize_loop t i q r res = tokenize_loop t (i + 1) (\<not> q) r (res @ [ord_byte (t ! i)])"
  by (subst tokenize_loop.simps) simp

lemma loop_copy:
  "i < length t \<Longrightarrow> t ! i \<noteq> CHR 0x22 \<Longrightarrow> q \<or> r \<Longrightarrow>
   tokenize_loop t i q r res = tokenize_loop t (i + 1) q r (res @ [ord_byte (t ! i)])"
  by (subst tokenize_loop.simps) (simp add: Let_def)

lemma loop_match:
  "i < length t \<Longrightarrow> t ! i \<noteq> CHR 0x22 \<Longrightarrow> \<not> q \<Longrightarrow> \<not> r \<Longrightarrow>
   match_token SORTED_TOKENS t i = Some (n, v) \<Longrightarrow>
   tokenize_loop t i q r res =
     tokenize_loop t (skip_spaces t (i + length n)) False (n = ''REM'') (res @ [v])"
  by (subst tokenize_loop.simps) (simp add: Let_def)

lemma loop_nomatch:
  "i < length t \<Longrightarrow> t ! i \<noteq> CHR 0x22 \<Longrightarrow> \<not> q \<Longrightarrow> \<not> r \<Longrightarrow>
   match_token SORTED_TOKENS t i = None \<Longrightarrow>
   tokenize_loop t i q r res = tokenize_loop t (i + 1) False False (res @ [ord_byte (t ! i)])"
  by (subst tokenize_loop.simps) (simp add: Let_def)

lemma tokenize_loop_length:
  "length (tokenize_loop t i q r res) \<le> length res + (length t - i)"
proof (induction t i q r res rule: tokenize_loop.induct)
  case (1 t i q r res)
  show ?case
  proof (cases "i < length t")
    case False
    then show ?thesis by (simp add: loop_end)
  next
    case lt: True
    show ?thesis
    proof (cases "t ! i = CHR 0x22")
      case True
      with lt 1(1) [OF lt refl] show ?thesis by (simp add: loop_quote)
    next
      case nq: False
      show ?thesis
      proof (cases "q \<or> r")
        case True
        with lt nq 1(2) [OF lt refl] show ?thesis by (simp add: loop_copy)
      next
        case nqr: False
        show ?thesis
        proof (cases "match_token SORTED_TOKENS t i")
          case None
          with lt nq nqr 1(3) [OF lt refl nq _ None] show ?thesis
            by (simp add: loop_nomatch)
        next
          case (Some p)
          obtain n v where p: "p = (n, v)" by (cases p)
          from Some p have m: "match_token SORTED_TOKENS t i = Some (n, v)" by simp
          from match_token_mem [OF m] tokens_nonempty have "n \<noteq> []" by fastforce
          then have "i < i + length n" by simp
          with skip_spaces_ge [of "i + length n" t]
          have adv: "i < skip_spaces t (i + length n)" by linarith
          from nqr have q: "\<not> q" and r: "\<not> r" by simp_all
          have "length (tokenize_loop t (skip_spaces t (i + length n)) q
                  (if n = ''REM'' then True else r) (res @ [v]))
                \<le> length (res @ [v]) + (length t - skip_spaces t (i + length n))"
            using 1(4) [OF lt refl nq _ m [unfolded p [symmetric]] p [symmetric]] nqr by simp
          with q r have "length (tokenize_loop t (skip_spaces t (i + length n)) False
                  (n = ''REM'') (res @ [v]))
                \<le> length res + 1 + (length t - skip_spaces t (i + length n))"
            by (cases "n = ''REM''") simp_all
          moreover have "tokenize_loop t i q r res =
              tokenize_loop t (skip_spaces t (i + length n)) False (n = ''REM'') (res @ [v])"
            using lt nq q r m by (rule loop_match)
          ultimately show ?thesis using adv lt by simp
        qed
      qed
    qed
  qed
qed

lemma match_token_Cons:
  "match_token ((n, v) # rest) t i =
     (if accepts t i n then Some (n, v) else match_token rest t i)"
  by (auto simp: accepts_def Let_def)

lemma match_token_find:
  "match_token L t i = List.find (\<lambda>p. accepts t i (fst p)) L"
proof (induction L)
  case Nil
  show ?case by simp
next
  case (Cons p L)
  obtain n v where p: "p = (n, v)" by (cases p)
  show ?case unfolding p match_token_Cons using Cons by simp
qed

lemma py_upper_nonempty: "py_upper c \<noteq> []"
  by (simp add: py_upper_def Let_def)

lemma slice_Cons:
  "i < length t \<Longrightarrow> n \<noteq> [] \<Longrightarrow>
   slice t i (i + length n) = t ! i # slice t (i + 1) (i + length n)"
  by (cases n) (simp_all add: slice_def Cons_nth_drop_Suc [symmetric])

lemma accepts_hd:
  assumes "accepts t i n" and "n \<noteq> []" and "i < length t"
  shows "hd (codepoints n) = hd (py_upper (t ! i))"
proof -
  from assms have "str_upper (t ! i # slice t (i + 1) (i + length n)) = codepoints n"
    by (simp add: accepts_def slice_Cons)
  then have "py_upper (t ! i) @ str_upper (slice t (i + 1) (i + length n)) = codepoints n"
    by (simp add: str_upper_def)
  then have "hd (codepoints n) = hd (py_upper (t ! i) @ str_upper (slice t (i + 1) (i + length n)))"
    by simp
  then show ?thesis using py_upper_nonempty [of "t ! i"] by simp
qed

lemma accepts_in_range:
  assumes "accepts t i n" and "n \<noteq> []"
  shows "i < length t"
proof (rule ccontr)
  assume "\<not> i < length t"
  then have "slice t i (i + length n) = []" by (simp add: slice_def)
  with assms show False by (simp add: accepts_def str_upper_def codepoints_def)
qed

lemma skip_spaces_takeWhile:
  "skip_spaces t j = j + length (takeWhile (\<lambda>c. c = CHR '' '') (drop j t))"
proof (induction t j rule: skip_spaces.induct)
  case (1 t j)
  show ?case
  proof (cases "j < length t \<and> t ! j = CHR '' ''")
    case True
    then have d: "drop j t = CHR '' '' # drop (j + 1) t"
      by (simp add: Cons_nth_drop_Suc [symmetric])
    have "skip_spaces t j = skip_spaces t (j + 1)"
      using True by (subst skip_spaces.simps) simp
    with 1 True d show ?thesis by simp
  next
    case False
    then have s: "skip_spaces t j = j" by (subst skip_spaces.simps) auto
    show ?thesis
    proof (cases "j < length t")
      case True
      with False have "drop j t = t ! j # drop (j + 1) t" "t ! j \<noteq> CHR '' ''"
        by (simp_all add: Cons_nth_drop_Suc [symmetric])
      with s show ?thesis by simp
    next
      case False
      with s show ?thesis by simp
    qed
  qed
qed

lemma match_advances:
  assumes "match_token SORTED_TOKENS t i = Some (n, v)"
  shows "i < skip_spaces t (i + length n)"
proof -
  from match_token_mem [OF assms] tokens_nonempty have "n \<noteq> []" by fastforce
  then have "i < i + length n" by simp
  with skip_spaces_ge [of "i + length n" t] show ?thesis by linarith
qed

lemma loop_step_ex:
  assumes lt: "i < length t"
  shows "\<exists>i' q' r' b. i < i' \<and>
           (\<forall>res. tokenize_loop t i q r res = tokenize_loop t i' q' r' (res @ [b]))"
proof (cases "t ! i = CHR 0x22")
  case True
  with lt have "\<forall>res. tokenize_loop t i q r res
      = tokenize_loop t (i + 1) (\<not> q) r (res @ [ord_byte (t ! i)])"
    by (simp add: loop_quote)
  then show ?thesis by (intro exI [of _ "i + 1"]) auto
next
  case nq: False
  show ?thesis
  proof (cases "q \<or> r")
    case True
    with lt nq have "\<forall>res. tokenize_loop t i q r res
        = tokenize_loop t (i + 1) q r (res @ [ord_byte (t ! i)])"
      by (simp add: loop_copy)
    then show ?thesis by (intro exI [of _ "i + 1"]) auto
  next
    case nqr: False
    show ?thesis
    proof (cases "match_token SORTED_TOKENS t i")
      case None
      with lt nq nqr have "\<forall>res. tokenize_loop t i q r res
          = tokenize_loop t (i + 1) False False (res @ [ord_byte (t ! i)])"
        by (simp add: loop_nomatch)
      then show ?thesis by (intro exI [of _ "i + 1"]) auto
    next
      case (Some p)
      obtain n v where m: "match_token SORTED_TOKENS t i = Some (n, v)"
        using Some by (cases p) simp
      with lt nq nqr have "\<forall>res. tokenize_loop t i q r res
          = tokenize_loop t (skip_spaces t (i + length n)) False (n = ''REM'') (res @ [v])"
        by (simp add: loop_match)
      with match_advances [OF m] show ?thesis
        by (intro exI [of _ "skip_spaces t (i + length n)"]) auto
    qed
  qed
qed

lemma tokenize_loop_append:
  "tokenize_loop t i q r res = res @ tokenize_loop t i q r []"
proof (induction "length t - i" arbitrary: i q r res rule: less_induct)
  case less
  show ?case
  proof (cases "i < length t")
    case False
    then show ?thesis by (simp add: loop_end)
  next
    case True
    from loop_step_ex [OF True, of q r] obtain i' q' r' b
      where adv: "i < i'"
        and st: "\<And>res. tokenize_loop t i q r res = tokenize_loop t i' q' r' (res @ [b])"
      by blast
    from adv True have d: "length t - i' < length t - i" by simp
    have "tokenize_loop t i q r res = (res @ [b]) @ tokenize_loop t i' q' r' []"
      using less [OF d, of q' r' "res @ [b]"] st by simp
    moreover have "tokenize_loop t i q r [] = [b] @ tokenize_loop t i' q' r' []"
      using less [OF d, of q' r' "[b]"] st [of "[]"] by simp
    ultimately show ?thesis by simp
  qed
qed

lemma loop_in_rem:
  "tokenize_loop t i q True res = res @ map ord_byte (drop i t)"
proof (induction "length t - i" arbitrary: i q res rule: less_induct)
  case less
  show ?case
  proof (cases "i < length t")
    case False
    then show ?thesis by (simp add: loop_end)
  next
    case True
    then have d: "length t - (i + 1) < length t - i" by simp
    have dr: "drop i t = t ! i # drop (i + 1) t"
      using True by (simp add: Cons_nth_drop_Suc [symmetric])
    show ?thesis
    proof (cases "t ! i = CHR 0x22")
      case True
      with \<open>i < length t\<close> less [OF d, of "\<not> q" "res @ [ord_byte (t ! i)]"] dr
      show ?thesis by (simp add: loop_quote)
    next
      case False
      with \<open>i < length t\<close> less [OF d, of q "res @ [ord_byte (t ! i)]"] dr
      show ?thesis by (simp add: loop_copy)
    qed
  qed
qed

lemma loop_in_quote:
  "tokenize_loop t i True r res =
     res @ map ord_byte (takeWhile (\<lambda>c. c \<noteq> CHR 0x22) (drop i t)) @
     (if i + length (takeWhile (\<lambda>c. c \<noteq> CHR 0x22) (drop i t)) < length t
      then ord_byte (CHR 0x22) #
        tokenize_loop t (i + length (takeWhile (\<lambda>c. c \<noteq> CHR 0x22) (drop i t)) + 1) False r []
      else [])"
proof (induction "length t - i" arbitrary: i res rule: less_induct)
  case less
  show ?case
  proof (cases "i < length t")
    case False
    then show ?thesis by (simp add: loop_end)
  next
    case True
    then have d: "length t - (i + 1) < length t - i" by simp
    have dr: "drop i t = t ! i # drop (i + 1) t"
      using True by (simp add: Cons_nth_drop_Suc [symmetric])
    show ?thesis
    proof (cases "t ! i = CHR 0x22")
      case q: True
      have "tokenize_loop t i True r res = tokenize_loop t (i + 1) False r (res @ [ord_byte (t ! i)])"
        using True q by (simp add: loop_quote)
      also have "\<dots> = res @ ord_byte (t ! i) # tokenize_loop t (i + 1) False r []"
        by (subst tokenize_loop_append) simp
      finally show ?thesis using dr q True by simp
    next
      case False
      with True less [OF d, of "res @ [ord_byte (t ! i)]"] dr
      show ?thesis by (simp add: loop_copy)
    qed
  qed
qed

subsection \<open>Tokenizing never lengthens a line\<close>

text \<open>
  C10. \<^verbatim>\<open>tokenize_line\<close> is a total function: both of its loops were accepted with a
  measure, the number of characters not yet scanned, that every pass decreases (a keyword
  match advances by the length of a spelling, which is never empty). Its output has at
  most as many bytes as the text has characters.
\<close>

theorem tokenize_line_never_longer: "length (tokenize_line line_text) \<le> length line_text"
  using tokenize_loop_length [of line_text 0 False False Nil] by (simp add: tokenize_line_def)

subsection \<open>The two-line example\<close>

text \<open>Concrete lines are evaluated by rewriting with the definitions.\<close>

lemmas eval_defs = tokenize_line_def tokenize_loop.simps skip_spaces.simps
  SORTED_TOKENS_eq str_upper_def py_upper_def py_ord_def codepoints_def
  slice_def py_isalpha_def py_isalnum_def ord_byte_def Let_def

lemma tok_hello:
  \<open>tokenize_line ''PRINT "HELLO"'' = [0x99, 0x22, 0x48, 0x45, 0x4C, 0x4C, 0x4F, 0x22]\<close>
  by (simp add: eval_defs)

lemma tok_goto: "tokenize_line ''GOTO 10'' = [0x89, 0x31, 0x30]"
  by (simp add: eval_defs)

lemma hello_goto_image:
  \<open>create_prg [(10, ''PRINT "HELLO"''), (20, ''GOTO 10'')] 0x0401 =
     Inr [0x01, 0x04,
          0x0E, 0x04, 0x0A, 0x00, 0x99, 0x22, 0x48, 0x45, 0x4C, 0x4C, 0x4F, 0x22, 0x00,
          0x16, 0x04, 0x14, 0x00, 0x89, 0x31, 0x30, 0x00,
          0x00, 0x00]\<close>
  by (simp add: create_prg_def add_line.simps pack_H_def pack_into_H_def tok_hello tok_goto)

text \<open>
  C2, as the program behaves. Building \<^verbatim>\<open>[(10, 'PRINT "HELLO"'), (20, 'GOTO 10')]\<close> at the
  default load address 0x0401 gives the load address bytes 01 04; the record of line 10
  with link 0E 04 (0x040E, the address right after that record), line number 0A 00 and
  body 99 22 48 45 4C 4C 4F 22 00; the record of line 20 with link 16 04, line number
  14 00 and body 89 31 30 00, where 89 is the GOTO code; and the sentinel 00 00. The
  space after \<^verbatim>\<open>PRINT\<close> and the one after \<^verbatim>\<open>GOTO\<close> are skipped with the keyword, so
  no 0x20 byte follows either code.
\<close>

theorem create_prg_hello_goto:
  \<open>create_prg [(10, ''PRINT "HELLO"''), (20, ''GOTO 10'')] 0x0401 =
     Inr ([0x01, 0x04] @
          [0x0E, 0x04] @ [0x0A, 0x00] @ [0x99, 0x22, 0x48, 0x45, 0x4C, 0x4C, 0x4F, 0x22, 0x00] @
          [0x16, 0x04] @ [0x14, 0x00] @ [0x89, 0x31, 0x30, 0x00] @
          [0x00, 0x00])\<close>
  using hello_goto_image by simp

text \<open>
  C2 as stated asks for the body 99 20 22 48 45 4C 4C 4F 22 00 in the record of line 10,
  with a literal space byte after the PRINT code. The ten bytes that follow the link and
  the line number of the first record are different.
\<close>

theorem hello_body_has_no_space_byte:
  \<open>take 10 (drop 6 (projr (create_prg [(10, ''PRINT "HELLO"''), (20, ''GOTO 10'')] 0x0401)))
     \<noteq> [0x99, 0x20, 0x22, 0x48, 0x45, 0x4C, 0x4C, 0x4F, 0x22, 0x00]\<close>
  using hello_goto_image by simp

subsection \<open>The step after a keyword match\<close>

lemma match_rem_two_spaces:
  "match_token SORTED_TOKENS ''REM  GOTO'' 0 = Some (''REM'', 0x8F)"
  by (simp add: eval_defs)

text \<open>
  C4. Outside quotes and comments, at a position \<open>i\<close> that holds no double quote and where
  the candidate loop ends with a match \<open>(n, v)\<close>, the scan appends the one byte \<open>v\<close> and
  resumes at \<open>i + length n\<close> plus the length of the run of spaces that starts there: the
  spaces of that run are emitted nowhere. When the spelling is \<^verbatim>\<open>REM\<close>, everything from
  the resumed position to the end of the line is copied, each character as its byte;
  otherwise scanning goes on there, still outside quotes and comments.
\<close>

theorem keyword_match_step:
  assumes "i < length t" and "t ! i \<noteq> CHR 0x22"
    and "match_token SORTED_TOKENS t i = Some (n, v)"
  shows "tokenize_loop t i False False res =
           res @ [v] @
           (if n = ''REM''
            then map ord_byte
              (drop (i + length n + length (takeWhile (\<lambda>c. c = CHR '' '') (drop (i + length n) t))) t)
            else tokenize_loop t
              (i + length n + length (takeWhile (\<lambda>c. c = CHR '' '') (drop (i + length n) t)))
              False False [])"
proof -
  let ?j = "i + length n + length (takeWhile (\<lambda>c. c = CHR '' '') (drop (i + length n) t))"
  have "tokenize_loop t i False False res = tokenize_loop t ?j False (n = ''REM'') (res @ [v])"
    using assms by (simp add: loop_match skip_spaces_takeWhile)
  also have "\<dots> = (res @ [v]) @ tokenize_loop t ?j False (n = ''REM'') []"
    by (rule tokenize_loop_append)
  finally show ?thesis
    by (cases "n = ''REM''") (simp_all add: loop_in_rem)
qed

text \<open>The step on \<^verbatim>\<open>REM  GOTO\<close>: the two spaces vanish and \<^verbatim>\<open>GOTO\<close> stays text.\<close>

theorem keyword_match_step_witness:
  "0 < length ''REM  GOTO'' \<and> ''REM  GOTO'' ! 0 \<noteq> CHR 0x22 \<and>
   match_token SORTED_TOKENS ''REM  GOTO'' 0 = Some (''REM'', 0x8F) \<and>
   tokenize_loop ''REM  GOTO'' 0 False False [] = [0x8F, 0x47, 0x4F, 0x54, 0x4F]"
proof -
  have a: "0 < length ''REM  GOTO''" and b: "''REM  GOTO'' ! 0 \<noteq> CHR 0x22" by simp_all
  from keyword_match_step [OF a b match_rem_two_spaces, of "[]"]
  show ?thesis using match_rem_two_spaces by (simp add: ord_byte_def py_ord_def)
qed

subsection \<open>Quoted text and comments\<close>

lemma tok_quoted_print:
  \<open>tokenize_line ''"PRINT"'' = [0x22, 0x50, 0x52, 0x49, 0x4E, 0x54, 0x22]\<close>
  by (simp add: eval_defs)

lemma match_rem_x: "match_token SORTED_TOKENS ''REM X'' 0 = Some (''REM'', 0x8F)"
  by (simp add: eval_defs)

lemma tok_rem_x: "tokenize_line ''REM X'' = [0x8F, 0x58]"
proof -
  have "tokenize_loop ''REM X'' 0 False False [] =
          tokenize_loop ''REM X'' (skip_spaces ''REM X'' (0 + length ''REM'')) False
            (''REM'' = ''REM'') ([] @ [0x8F])"
    by (rule loop_match [OF _ _ _ _ match_rem_x]) simp_all
  then show ?thesis
    by (simp add: tokenize_line_def skip_spaces_takeWhile loop_in_rem ord_byte_def py_ord_def)
qed

text \<open>
  C6 as stated has all characters after a matched \<^verbatim>\<open>REM\<close> copied to the output. The
  spaces that directly follow the keyword are not: \<^verbatim>\<open>REM X\<close> gives the two bytes 8F 58,
  the space is dropped.
\<close>

theorem rem_spaces_not_copied:
  "tokenize_line (''REM'' @ '' X'') \<noteq> [0x8F] @ map ord_byte '' X''"
  using tok_rem_x by (simp add: ord_byte_def py_ord_def)

text \<open>
  C6, as the program behaves. In the loop state with \<open>in_quote\<close> set, the characters up
  to the next double quote (or to the end of the line when there is none) are copied
  byte for byte, then the closing quote, and scanning goes on after it. With \<open>in_rem\<close>
  set, all remaining characters are copied byte for byte. After a match of \<^verbatim>\<open>REM\<close> the
  copied characters are the ones after the keyword and the run of spaces that directly
  follows it. For whole lines: a quote-free text between two double quotes, or after an
  unterminated one, comes out as its bytes between the quote bytes; \<^verbatim>\<open>"PRINT"\<close> is 22 50
  52 49 4E 54 22, with no byte 0x99.
\<close>

theorem quoted_and_rem_text_verbatim:
  \<open>tokenize_loop t i True r res =
      res @ map ord_byte (takeWhile (\<lambda>c. c \<noteq> CHR 0x22) (drop i t)) @
      (if i + length (takeWhile (\<lambda>c. c \<noteq> CHR 0x22) (drop i t)) < length t
       then ord_byte (CHR 0x22) #
         tokenize_loop t (i + length (takeWhile (\<lambda>c. c \<noteq> CHR 0x22) (drop i t)) + 1) False r []
       else [])
    \<and> tokenize_loop t i q True res = res @ map ord_byte (drop i t)
    \<and> (i < length t \<and> t ! i \<noteq> CHR 0x22 \<and> match_token SORTED_TOKENS t i = Some (''REM'', v) \<longrightarrow>
         tokenize_loop t i False False res =
           res @ [v] @ map ord_byte
             (drop (i + 3 + length (takeWhile (\<lambda>c. c = CHR '' '') (drop (i + 3) t))) t))
    \<and> (CHR 0x22 \<notin> set s \<longrightarrow>
         tokenize_line ([CHR 0x22] @ s @ [CHR 0x22]) = [0x22] @ map ord_byte s @ [0x22] \<and>
         tokenize_line ([CHR 0x22] @ s) = [0x22] @ map ord_byte s)
    \<and> tokenize_line ''"PRINT"'' = [0x22, 0x50, 0x52, 0x49, 0x4E, 0x54, 0x22]\<close>
proof (intro conjI impI)
  show "tokenize_loop t i True r res =
      res @ map ord_byte (takeWhile (\<lambda>c. c \<noteq> CHR 0x22) (drop i t)) @
      (if i + length (takeWhile (\<lambda>c. c \<noteq> CHR 0x22) (drop i t)) < length t
       then ord_byte (CHR 0x22) #
         tokenize_loop t (i + length (takeWhile (\<lambda>c. c \<noteq> CHR 0x22) (drop i t)) + 1) False r []
       else [])"
    by (rule loop_in_quote)
  show "tokenize_loop t i q True res = res @ map ord_byte (drop i t)"
    by (rule loop_in_rem)
next
  assume a: "i < length t \<and> t ! i \<noteq> CHR 0x22 \<and> match_token SORTED_TOKENS t i = Some (''REM'', v)"
  then have "tokenize_loop t i False False res =
      tokenize_loop t (skip_spaces t (i + length ''REM'')) False (''REM'' = ''REM'') (res @ [v])"
    by (intro loop_match) simp_all
  then show "tokenize_loop t i False False res =
           res @ [v] @ map ord_byte
             (drop (i + 3 + length (takeWhile (\<lambda>c. c = CHR '' '') (drop (i + 3) t))) t)"
    by (simp add: skip_spaces_takeWhile loop_in_rem numeral_3_eq_3)
next
  assume nq: "CHR 0x22 \<notin> set s"
  then have tw: "takeWhile (\<lambda>c. c \<noteq> CHR 0x22) s = s" by (auto intro: takeWhile_eq_all_conv [THEN iffD2])
  have tw2: "takeWhile (\<lambda>c. c \<noteq> CHR 0x22) (s @ [CHR 0x22]) = s"
    using nq by (simp add: takeWhile_append)
  have q: "ord_byte (CHR 0x22) = 0x22" by (simp add: ord_byte_def py_ord_def)
  have "tokenize_line (CHR 0x22 # s @ [CHR 0x22]) =
          tokenize_loop (CHR 0x22 # s @ [CHR 0x22]) 1 True False [0x22]"
    by (simp add: tokenize_line_def loop_quote q)
  also have "\<dots> = [0x22] @ map ord_byte s @ [0x22]"
    by (subst loop_in_quote) (simp add: tw2 loop_end q)
  finally show "tokenize_line ([CHR 0x22] @ s @ [CHR 0x22]) = [0x22] @ map ord_byte s @ [0x22]"
    by simp
  have "tokenize_line (CHR 0x22 # s) = tokenize_loop (CHR 0x22 # s) 1 True False [0x22]"
    by (simp add: tokenize_line_def loop_quote q)
  also have "\<dots> = [0x22] @ map ord_byte s"
    by (subst loop_in_quote) (simp add: tw)
  finally show "tokenize_line ([CHR 0x22] @ s) = [0x22] @ map ord_byte s" by simp
next
  show \<open>tokenize_line ''"PRINT"'' = [0x22, 0x50, 0x52, 0x49, 0x4E, 0x54, 0x22]\<close>
    by (rule tok_quoted_print)
qed

theorem quoted_and_rem_text_verbatim_witness:
  \<open>tokenize_loop ''REM X'' 0 False False [] = [0x8F, 0x58] \<and>
   tokenize_line ([CHR 0x22] @ ''GOTO'' @ [CHR 0x22]) = [0x22, 0x47, 0x4F, 0x54, 0x4F, 0x22] \<and>
   tokenize_line ([CHR 0x22] @ ''GOTO'') = [0x22, 0x47, 0x4F, 0x54, 0x4F]\<close>
proof -
  have a: "0 < length ''REM X'' \<and> ''REM X'' ! 0 \<noteq> CHR 0x22 \<and>
           match_token SORTED_TOKENS ''REM X'' 0 = Some (''REM'', 0x8F)"
    using match_rem_x by simp
  have b: "CHR 0x22 \<notin> set ''GOTO''" by simp
  from quoted_and_rem_text_verbatim
    [where t = "''REM X''" and i = 0 and res = "[]" and v = "0x8F" and s = "''GOTO''"] a b
  show ?thesis by (simp add: ord_byte_def py_ord_def)
qed

subsection \<open>The order of the candidates\<close>

lemma distinct_spellings: "distinct (map fst TOKENS)"
  by (simp add: TOKENS_def)

lemma distinct_codes: "distinct (map snd TOKENS)"
  by (simp add: TOKENS_def)

lemma spellings_uppercase: "p \<in> set TOKENS \<Longrightarrow> str_upper (fst p) = codepoints (fst p)"
  by (auto simp: TOKENS_def str_upper_def py_upper_def py_ord_def codepoints_def)

lemma spellings_no_quote: "p \<in> set TOKENS \<Longrightarrow> hd (fst p) \<noteq> CHR 0x22"
  by (auto simp: TOKENS_def)

lemma codes_high: "p \<in> set TOKENS \<Longrightarrow> 0x80 \<le> snd p"
  by (auto simp: TOKENS_def)

lemma set_SORTED_TOKENS: "set SORTED_TOKENS = set TOKENS"
  by (simp add: SORTED_TOKENS_def)

lemma distinct_sorted_spellings: "distinct (map fst SORTED_TOKENS)"
proof -
  have "distinct TOKENS \<and> inj_on fst (set TOKENS)"
    using distinct_spellings by (simp add: distinct_map)
  then show ?thesis by (simp add: distinct_map SORTED_TOKENS_def)
qed

lemma sorted_wrt_strict:
  "sorted_wrt P xs \<Longrightarrow> distinct (map g xs) \<Longrightarrow> (\<And>x y. P x y \<Longrightarrow> g x \<noteq> g y \<Longrightarrow> R x y) \<Longrightarrow>
   sorted_wrt R xs"
  by (induction xs) auto

lemma SORTED_TOKENS_order:
  "sorted_wrt (\<lambda>p q. length (fst q) < length (fst p) \<or>
                      (length (fst p) = length (fst q) \<and> fst p < fst q)) SORTED_TOKENS"
proof -
  have "sorted (map sort_key_fn SORTED_TOKENS)"
    unfolding SORTED_TOKENS_def by (rule sorted_sort_key)
  then have "sorted_wrt (\<lambda>p q. sort_key_fn p \<le> sort_key_fn q) SORTED_TOKENS"
    by (simp add: sorted_map)
  then show ?thesis
  proof (rule sorted_wrt_strict [where g = fst])
    show "distinct (map fst SORTED_TOKENS)" by (rule distinct_sorted_spellings)
  next
    fix x y :: "string \<times> byte"
    assume "sort_key_fn x \<le> sort_key_fn y" and "fst x \<noteq> fst y"
    then show "length (fst y) < length (fst x) \<or>
               (length (fst x) = length (fst y) \<and> fst x < fst y)"
      by (auto simp: sort_key_fn_def less_eq_prod_def)
  qed
qed

text \<open>
  C7. \<^verbatim>\<open>SORTED_TOKENS\<close> holds the entries of \<^verbatim>\<open>TOKENS\<close>, all of them, arranged so that
  of any two entries the earlier one has the longer spelling or, at equal length, the
  spelling that is smaller in the lexicographic order of strings (characters compared by
  code point). The candidate loop returns the first entry in that order whose spelling
  matches the uppercased slice and passes the word check, and nothing when there is none.
  Outside quotes and comments that entry decides the step of the scan: its code is
  appended and scanning resumes after the spelling and the spaces behind it; with no
  entry the character is copied.
\<close>

theorem candidates_longest_first_then_lexicographic:
  "set SORTED_TOKENS = set TOKENS \<and> length SORTED_TOKENS = length TOKENS \<and>
   sorted_wrt (\<lambda>p q. length (fst q) < length (fst p) \<or>
                      (length (fst p) = length (fst q) \<and> fst p < fst q)) SORTED_TOKENS \<and>
   match_token SORTED_TOKENS t i = List.find (\<lambda>p. accepts t i (fst p)) SORTED_TOKENS \<and>
   tokenize_loop t i False False res =
     (if i < length t \<and> t ! i \<noteq> CHR 0x22 then
        (case List.find (\<lambda>p. accepts t i (fst p)) SORTED_TOKENS of
           Some (n, v) \<Rightarrow>
             tokenize_loop t (skip_spaces t (i + length n)) False (n = ''REM'') (res @ [v])
         | None \<Rightarrow> tokenize_loop t (i + 1) False False (res @ [ord_byte (t ! i)]))
      else if i < length t then tokenize_loop t (i + 1) True False (res @ [ord_byte (t ! i)])
      else res)"
proof (intro conjI)
  show "set SORTED_TOKENS = set TOKENS" by (rule set_SORTED_TOKENS)
  show "length SORTED_TOKENS = length TOKENS" by (simp add: SORTED_TOKENS_def)
  show "sorted_wrt (\<lambda>p q. length (fst q) < length (fst p) \<or>
                      (length (fst p) = length (fst q) \<and> fst p < fst q)) SORTED_TOKENS"
    by (rule SORTED_TOKENS_order)
  show "match_token SORTED_TOKENS t i = List.find (\<lambda>p. accepts t i (fst p)) SORTED_TOKENS"
    by (rule match_token_find)
  show "tokenize_loop t i False False res =
     (if i < length t \<and> t ! i \<noteq> CHR 0x22 then
        (case List.find (\<lambda>p. accepts t i (fst p)) SORTED_TOKENS of
           Some (n, v) \<Rightarrow>
             tokenize_loop t (skip_spaces t (i + length n)) False (n = ''REM'') (res @ [v])
         | None \<Rightarrow> tokenize_loop t (i + 1) False False (res @ [ord_byte (t ! i)]))
      else if i < length t then tokenize_loop t (i + 1) True False (res @ [ord_byte (t ! i)])
      else res)"
    by (subst tokenize_loop.simps)
       (auto simp: Let_def match_token_find [symmetric] split: option.splits)
qed

subsection \<open>A keyword alone on a line\<close>

lemma length_str_upper: "length s \<le> length (str_upper s)"
proof (induction s)
  case Nil
  show ?case by (simp add: str_upper_def)
next
  case (Cons c s)
  have "1 \<le> length (py_upper c)"
    using py_upper_nonempty [of c] by (cases "py_upper c") simp_all
  with Cons show ?case by (simp add: str_upper_def)
qed

lemma codepoints_inject: "codepoints a = codepoints b \<Longrightarrow> a = b"
proof -
  have "inj py_ord" by (auto simp: inj_def py_ord_def)
  then show "codepoints a = codepoints b \<Longrightarrow> a = b"
    by (simp add: codepoints_def)
qed

lemma accepts_whole:
  assumes "length t \<le> length n"
  shows "accepts t 0 n \<longleftrightarrow> str_upper t = codepoints n"
  using assms by (simp add: accepts_def slice_def)

lemma match_bare_keyword:
  assumes mem: "(k, v) \<in> set TOKENS" and up: "str_upper t = codepoints k"
  shows "match_token SORTED_TOKENS t 0 = Some (k, v)"
proof -
  have len: "length t \<le> length k"
    using length_str_upper [of t] up by (simp add: codepoints_def)
  from mem have "(k, v) \<in> set SORTED_TOKENS" by (simp add: set_SORTED_TOKENS)
  then obtain idx where idx: "idx < length SORTED_TOKENS" "SORTED_TOKENS ! idx = (k, v)"
    by (auto simp: in_set_conv_nth)
  have before: "\<not> accepts t 0 (fst (SORTED_TOKENS ! j))" if "j < idx" for j
  proof
    assume acc: "accepts t 0 (fst (SORTED_TOKENS ! j))"
    have "\<forall>a b. a < b \<longrightarrow> b < length SORTED_TOKENS \<longrightarrow>
            length (fst (SORTED_TOKENS ! b)) < length (fst (SORTED_TOKENS ! a)) \<or>
            (length (fst (SORTED_TOKENS ! a)) = length (fst (SORTED_TOKENS ! b)) \<and>
             fst (SORTED_TOKENS ! a) < fst (SORTED_TOKENS ! b))"
      using SORTED_TOKENS_order by (simp add: sorted_wrt_iff_nth_less)
    with that idx(1)
    have "length (fst (SORTED_TOKENS ! idx)) < length (fst (SORTED_TOKENS ! j)) \<or>
            (length (fst (SORTED_TOKENS ! j)) = length (fst (SORTED_TOKENS ! idx)) \<and>
             fst (SORTED_TOKENS ! j) < fst (SORTED_TOKENS ! idx))"
      by blast
    then have ord: "length k < length (fst (SORTED_TOKENS ! j)) \<or>
          (length (fst (SORTED_TOKENS ! j)) = length k \<and> fst (SORTED_TOKENS ! j) < k)"
      by (simp add: idx(2))
    then have "length t \<le> length (fst (SORTED_TOKENS ! j))" using len by auto
    with acc have "str_upper t = codepoints (fst (SORTED_TOKENS ! j))"
      by (simp add: accepts_whole)
    with up have "fst (SORTED_TOKENS ! j) = k" by (simp add: codepoints_inject)
    with ord show False by simp
  qed
  have here: "accepts t 0 k" using len up by (simp add: accepts_whole)
  have "List.find (\<lambda>p. accepts t 0 (fst p)) SORTED_TOKENS = Some (k, v)"
    unfolding find_Some_iff using idx here before by (intro exI [of _ idx]) auto
  then show ?thesis by (simp add: match_token_find)
qed

text \<open>
  C5. For every entry \<open>(k, v)\<close> of the table, whether \<open>k\<close> starts with a letter or is an
  operator sign, and whether it belongs to BASIC 2.0 or to the BASIC 4.0 additions, the
  line that consists of \<open>k\<close> tokenizes to the single byte \<open>v\<close>. So does every text \<open>t\<close>
  that Python's \<^verbatim>\<open>upper()\<close> turns into \<open>k\<close>, that is, \<open>k\<close> in any mix of upper and lower
  case.
\<close>

theorem bare_keyword_one_byte:
  assumes "(k, v) \<in> set TOKENS"
  shows "tokenize_line k = [v] \<and> (\<forall>t. str_upper t = codepoints k \<longrightarrow> tokenize_line t = [v])"
proof -
  have main: "tokenize_line t = [v]" if up: "str_upper t = codepoints k" for t
  proof -
    have kne: "k \<noteq> []"
      using assms tokens_nonempty [of "(k, v)"] by (simp add: set_SORTED_TOKENS)
    have len: "length t \<le> length k"
      using length_str_upper [of t] up by (simp add: codepoints_def)
    have tne: "t \<noteq> []" using up kne by (auto simp: str_upper_def codepoints_def)
    then have lt: "0 < length t" by simp
    have m: "match_token SORTED_TOKENS t 0 = Some (k, v)"
      using assms up by (rule match_bare_keyword)
    have "accepts t 0 k" using len up by (simp add: accepts_whole)
    from accepts_hd [OF this kne lt]
    have "py_ord (hd k) = hd (py_upper (t ! 0))" using kne by (cases k) (simp_all add: codepoints_def)
    moreover have "hd k \<noteq> CHR 0x22" using spellings_no_quote [OF assms] by simp
    ultimately have nq: "t ! 0 \<noteq> CHR 0x22"
    proof (intro notI)
      assume q: "t ! 0 = CHR 0x22"
      assume "py_ord (hd k) = hd (py_upper (t ! 0))"
      with q have "(of_char (hd k) :: nat) = of_char (CHR 0x22)"
        by (simp add: py_upper_def py_ord_def)
      then have "hd k = CHR 0x22" by (simp only: of_char_eq_iff)
      moreover assume "hd k \<noteq> CHR 0x22"
      ultimately show False by simp
    qed
    have "tokenize_loop t 0 False False [] =
            tokenize_loop t (skip_spaces t (0 + length k)) False (k = ''REM'') ([] @ [v])"
      using lt nq m by (intro loop_match) simp_all
    moreover have "\<not> skip_spaces t (0 + length k) < length t"
      using skip_spaces_ge [of "0 + length k" t] len by simp
    ultimately show ?thesis by (simp add: tokenize_line_def loop_end)
  qed
  from spellings_uppercase [OF assms] have "str_upper k = codepoints k" by simp
  with main show ?thesis by blast
qed

text \<open>The entry \<^verbatim>\<open>PRINT\<close>, also written \<^verbatim>\<open>pRiNt\<close>.\<close>

theorem bare_keyword_one_byte_witness:
  "(''PRINT'', 0x99) \<in> set TOKENS \<and> str_upper ''pRiNt'' = codepoints ''PRINT'' \<and>
   tokenize_line ''PRINT'' = [0x99] \<and> tokenize_line ''pRiNt'' = [0x99]"
proof -
  have a: "(''PRINT'', 0x99) \<in> set TOKENS" by (simp add: TOKENS_def)
  have b: "str_upper ''pRiNt'' = codepoints ''PRINT''"
    by (simp add: str_upper_def py_upper_def py_ord_def codepoints_def)
  from bare_keyword_one_byte [OF a] a b show ?thesis by blast
qed

subsection \<open>A keyword followed by an identifier character\<close>

lemma spellings_ascii_first: "p \<in> set TOKENS \<Longrightarrow> ord_byte (hd (fst p)) < 0x80"
  by (auto simp: TOKENS_def ord_byte_def py_ord_def)

lemma find_Some_holds: "List.find P xs = Some x \<Longrightarrow> P x"
  by (induction xs) (auto split: if_splits)

lemma tok_total: "tokenize_line ''TOTAL'' = [0x54, 0x4F, 0x54, 0x41, 0x4C]"
  by (simp add: eval_defs)

lemma tok_ton: "tokenize_line ''TON'' = [0x54, 0x91]"
  by (simp add: eval_defs)

text \<open>
  C3 as stated has \<^verbatim>\<open>k + s\<close> come out as its literal bytes, with no keyword code anywhere.
  For \<open>k\<close> = \<^verbatim>\<open>TO\<close> and \<open>s\<close> = \<^verbatim>\<open>N\<close> the output is 54 91: the candidate \<^verbatim>\<open>TO\<close> is
  rejected at position 0, but at position 1 the text \<^verbatim>\<open>ON\<close> ends the line and is
  tokenized.
\<close>

theorem keyword_with_suffix_tokenized:
  "(''TO'', 0xA4) \<in> set TOKENS \<and> py_isalpha (hd ''TO'') \<and> py_isalnum (hd ''N'') \<and>
   tokenize_line (''TO'' @ ''N'') \<noteq> map ord_byte (''TO'' @ ''N'') \<and>
   0x91 \<in> set (tokenize_line (''TO'' @ ''N''))"
  using tok_ton by (simp add: TOKENS_def py_isalpha_def py_isalnum_def py_ord_def ord_byte_def)

lemma keyword_rejected_at_start:
  assumes mem: "(k, v) \<in> set TOKENS" and alpha: "py_isalpha (hd k)" and sne: "s \<noteq> []"
    and ident: "py_isalnum (hd s) \<or> hd s \<in> set ''$%''"
  shows "\<not> accepts (k @ s) 0 k \<and>
         match_token SORTED_TOKENS (k @ s) 0 \<noteq> Some (k, v) \<and>
         tokenize_line (k @ s) \<noteq> [] \<and> hd (tokenize_line (k @ s)) \<noteq> v \<and>
         tokenize_line ''TOTAL'' = map ord_byte ''TOTAL''"
proof -
  let ?t = "k @ s"
  have kne: "k \<noteq> []"
    using mem tokens_nonempty [of "(k, v)"] by (simp add: set_SORTED_TOKENS)
  then obtain c cs where k: "k = c # cs" by (cases k) auto
  have nth: "?t ! length k = hd s" using sne by (cases s) (simp_all add: nth_append)
  have rej: "\<not> accepts ?t 0 k"
    using alpha ident sne nth by (simp add: accepts_def k)
  have nm: "match_token SORTED_TOKENS ?t 0 \<noteq> Some (k, v')" for v'
  proof
    assume "match_token SORTED_TOKENS ?t 0 = Some (k, v')"
    then have "List.find (\<lambda>p. accepts ?t 0 (fst p)) SORTED_TOKENS = Some (k, v')"
      by (simp add: match_token_find)
    then have "accepts ?t 0 (fst (k, v'))"
      by (rule find_Some_holds)
    with rej show False by simp
  qed
  have lt: "0 < length ?t" using kne by simp
  have t0: "?t ! 0 = hd k" by (simp add: k)
  have nq: "?t ! 0 \<noteq> CHR 0x22"
    using alpha unfolding t0 by (auto simp: py_isalpha_def py_ord_def)
  have out: "tokenize_line ?t \<noteq> [] \<and> hd (tokenize_line ?t) \<noteq> v"
  proof (cases "match_token SORTED_TOKENS ?t 0")
    case None
    have "tokenize_loop ?t 0 False False [] =
            tokenize_loop ?t (0 + 1) False False ([] @ [ord_byte (?t ! 0)])"
      using lt nq None by (intro loop_nomatch) simp_all
    also have "\<dots> = [ord_byte (hd k)] @ tokenize_loop ?t (0 + 1) False False []"
      unfolding t0 by (subst tokenize_loop_append) simp
    finally have eq: "tokenize_line ?t = ord_byte (hd k) # tokenize_loop ?t (0 + 1) False False []"
      by (simp add: tokenize_line_def)
    have "ord_byte (hd k) < 0x80" using spellings_ascii_first [OF mem] by simp
    moreover have "0x80 \<le> v" using codes_high [OF mem] by simp
    ultimately have "ord_byte (hd k) \<noteq> v" by auto
    with eq show ?thesis by simp
  next
    case (Some p)
    obtain n' v' where p: "p = (n', v')" by (cases p)
    have m: "match_token SORTED_TOKENS ?t 0 = Some (n', v')" using Some p by simp
    have "tokenize_loop ?t 0 False False [] =
            tokenize_loop ?t (skip_spaces ?t (0 + length n')) False (n' = ''REM'') ([] @ [v'])"
      using lt nq m by (intro loop_match) simp_all
    also have "\<dots> = [v'] @ tokenize_loop ?t (skip_spaces ?t (0 + length n')) False (n' = ''REM'') []"
      by (subst tokenize_loop_append) simp
    finally have eq: "tokenize_line ?t =
        v' # tokenize_loop ?t (skip_spaces ?t (0 + length n')) False (n' = ''REM'') []"
      by (simp add: tokenize_line_def)
    have mem': "(n', v') \<in> set TOKENS"
      using match_token_mem [OF m] by (simp add: set_SORTED_TOKENS)
    have "n' \<noteq> k" using nm [of v'] m by auto
    have "inj_on snd (set TOKENS)" using distinct_codes by (simp add: distinct_map)
    have "v' \<noteq> v"
    proof
      assume "v' = v"
      then have "snd (n', v') = snd (k, v)" by simp
      from inj_onD [OF \<open>inj_on snd (set TOKENS)\<close> this mem' mem]
      have "(n', v') = (k, v)" .
      with \<open>n' \<noteq> k\<close> show False by simp
    qed
    with eq show ?thesis by simp
  qed
  have "tokenize_line ''TOTAL'' = map ord_byte ''TOTAL''"
    using tok_total by (simp add: ord_byte_def py_ord_def)
  with rej nm [of v] out show ?thesis by simp
qed

lemma proper_prefix_pairs:
  "\<forall>p\<in>set TOKENS. \<forall>q\<in>set TOKENS.
     (if hd (fst p) = hd (fst q) then
        length (fst p) < length (fst q) \<and> take (length (fst p)) (fst q) = fst p \<longrightarrow>
        (fst p = ''INPUT'' \<and> fst q = ''INPUT#'') \<or> (fst p = ''PRINT'' \<and> fst q = ''PRINT#'')
      else True)"
  by (simp add: TOKENS_def)

lemma proper_prefix_in_table:
  assumes a: "(a, va) \<in> set TOKENS" and b: "(b, vb) \<in> set TOKENS"
    and len: "length a < length b" and pre: "take (length a) b = a"
  shows "(a = ''INPUT'' \<and> b = ''INPUT#'') \<or> (a = ''PRINT'' \<and> b = ''PRINT#'')"
proof -
  have "a \<noteq> []" using a tokens_nonempty [of "(a, va)"] by (simp add: set_SORTED_TOKENS)
  then have "hd a = hd b" using pre len by (cases a; cases b) auto
  with proper_prefix_pairs a b len pre show ?thesis by fastforce
qed

lemma spelling_chars_stable:
  "p \<in> set TOKENS \<Longrightarrow> c \<in> set (fst p) \<Longrightarrow> py_upper c = [py_ord c]"
  by (auto simp: TOKENS_def py_upper_def py_ord_def)

lemma str_upper_stable:
  "(\<And>c. c \<in> set x \<Longrightarrow> py_upper c = [py_ord c]) \<Longrightarrow> str_upper x = codepoints x"
  by (induction x) (simp_all add: str_upper_def codepoints_def)

lemma ident_upper_not_hash:
  assumes "py_isalnum c \<or> c \<in> set ''$%''"
  shows "py_upper c \<noteq> [35]"
proof
  assume u: "py_upper c = [35]"
  have o: "py_ord c = 35"
    using u by (auto simp: py_upper_def Let_def split: if_splits)
  have na: "\<not> py_isalnum c" using o by (simp add: py_isalnum_def py_isalpha_def)
  have "(of_char c :: nat) = of_char (CHR ''#'')" using o by (simp add: py_ord_def)
  then have "c = CHR ''#''" by (simp only: of_char_eq_iff)
  with assms na show False by simp
qed


lemma codepoints_take: "codepoints (take m x) = take m (codepoints x)"
  by (simp add: codepoints_def take_map)

lemma accepted_candidates:
  assumes mem: "(k, v) \<in> set TOKENS" and alpha: "py_isalpha (hd k)" and sne: "s \<noteq> []"
    and ident: "py_isalnum (hd s) \<or> hd s \<in> set ''$%''"
    and n: "(n, w) \<in> set TOKENS" and acc: "accepts (k @ s) 0 n"
  shows "(n = ''INPUT'' \<and> k = ''INPUT#'') \<or> (n = ''PRINT'' \<and> k = ''PRINT#'')"
proof -
  let ?t = "k @ s"
  have kne: "k \<noteq> []"
    using mem tokens_nonempty [of "(k, v)"] by (simp add: set_SORTED_TOKENS)
  then obtain c0 cs where k: "k = c0 # cs" by (cases k) auto
  obtain c s' where s: "s = c # s'" using sne by (cases s) auto
  have stable: "str_upper (take m k) = codepoints (take m k)" for m
    by (rule str_upper_stable) (use mem spelling_chars_stable in \<open>auto dest: in_set_takeD\<close>)
  from acc have up: "str_upper (slice ?t 0 (length n)) = codepoints n"
    by (simp add: accepts_def)
  show ?thesis
  proof (cases "length n \<le> length k")
    case True
    then have "slice ?t 0 (length n) = take (length n) k" by (simp add: slice_def)
    with up stable have "codepoints (take (length n) k) = codepoints n" by simp
    then have pre: "take (length n) k = n" by (rule codepoints_inject)
    show ?thesis
    proof (cases "length n = length k")
      case True
      with pre have "n = k" by simp
      moreover have "?t ! length k = hd s" using sne by (cases s) (simp_all add: nth_append)
      ultimately have "\<not> accepts ?t 0 n"
        using alpha ident sne by (simp add: accepts_def k)
      with acc show ?thesis by simp
    next
      case False
      with True have "length n < length k" by simp
      from proper_prefix_in_table [OF n mem this pre] show ?thesis .
    qed
  next
    case False
    then have len: "length k < length n" by simp
    then have "slice ?t 0 (length n) = k @ c # take (length n - length k - 1) s'"
      by (simp add: slice_def s take_Cons')
    with up have "str_upper k @ py_upper c @ str_upper (take (length n - length k - 1) s')
                    = codepoints n"
      by (simp add: str_upper_def)
    moreover have "str_upper k = codepoints k" using stable [of "length k"] by simp
    moreover have "codepoints n = codepoints (take (length k) n) @ codepoints (drop (length k) n)"
      by (simp add: codepoints_def flip: map_append)
    ultimately have eq: "codepoints k @ (py_upper c @ str_upper (take (length n - length k - 1) s'))
                    = codepoints (take (length k) n) @ codepoints (drop (length k) n)"
      by simp
    have "length (codepoints k) = length (codepoints (take (length k) n))"
      using len by (simp add: codepoints_def)
    with eq have kk: "codepoints k = codepoints (take (length k) n)"
      and rr: "py_upper c @ str_upper (take (length n - length k - 1) s')
                 = codepoints (drop (length k) n)"
      by simp_all
    from kk have pre: "take (length k) n = k" by (rule codepoints_inject [symmetric])
    from proper_prefix_in_table [OF mem n len pre]
    have "(k = ''INPUT'' \<and> n = ''INPUT#'') \<or> (k = ''PRINT'' \<and> n = ''PRINT#'')" .
    then have "codepoints (drop (length k) n) = [35]"
      by (auto simp: codepoints_def py_ord_def)
    with rr have "py_upper c @ str_upper (take (length n - length k - 1) s') = [35]" by simp
    then have "py_upper c = [35]"
      using py_upper_nonempty [of c] by (cases "py_upper c") auto
    moreover have "py_upper c \<noteq> [35]"
      using ident by (intro ident_upper_not_hash) (simp add: s)
    ultimately show ?thesis by simp
  qed
qed

lemma spellings_no_hash: "p \<in> set TOKENS \<Longrightarrow> hd (fst p) \<noteq> CHR ''#''"
  by (auto simp: TOKENS_def)

lemma find_Some_mem: "List.find P xs = Some x \<Longrightarrow> x \<in> set xs"
  by (induction xs) (auto split: if_splits)

lemma no_match_at_hash:
  assumes "i < length t" and "t ! i = CHR ''#''"
  shows "match_token SORTED_TOKENS t i = None"
proof -
  have "\<not> accepts t i (fst p)" if p: "p \<in> set SORTED_TOKENS" for p
  proof
    assume acc: "accepts t i (fst p)"
    have ne: "fst p \<noteq> []" using p by (rule tokens_nonempty)
    from accepts_hd [OF acc ne assms(1)]
    have "py_ord (hd (fst p)) = 35"
      using ne assms(2) by (cases "fst p") (simp_all add: codepoints_def py_upper_def py_ord_def)
    then have "(of_char (hd (fst p)) :: nat) = of_char (CHR ''#'')" by (simp add: py_ord_def)
    then have "hd (fst p) = CHR ''#''" by (simp only: of_char_eq_iff)
    moreover have "hd (fst p) \<noteq> CHR ''#''"
      using p by (intro spellings_no_hash) (simp add: set_SORTED_TOKENS)
    ultimately show False by simp
  qed
  then show ?thesis unfolding match_token_find find_None_iff by blast
qed

lemma no_match_at_start:
  assumes mem: "(k, v) \<in> set TOKENS" and alpha: "py_isalpha (hd k)" and sne: "s \<noteq> []"
    and ident: "py_isalnum (hd s) \<or> hd s \<in> set ''$%''"
    and other: "k \<noteq> ''INPUT#''" "k \<noteq> ''PRINT#''"
  shows "match_token SORTED_TOKENS (k @ s) 0 = None"
proof -
  have "\<not> accepts (k @ s) 0 (fst p)" if p: "p \<in> set SORTED_TOKENS" for p
  proof
    assume acc: "accepts (k @ s) 0 (fst p)"
    have "(fst p, snd p) \<in> set TOKENS" using p by (simp add: set_SORTED_TOKENS)
    from accepted_candidates [OF mem alpha sne ident this acc] other show False by simp
  qed
  then show ?thesis unfolding match_token_find find_None_iff by blast
qed

lemma shorter_keyword_at_start:
  assumes mem: "(k, v) \<in> set TOKENS" and alpha: "py_isalpha (hd k)" and sne: "s \<noteq> []"
    and ident: "py_isalnum (hd s) \<or> hd s \<in> set ''$%''"
    and k: "k = n0 @ ''#''" and n0: "(n0, v0) \<in> set TOKENS"
    and only: "n0 = ''INPUT'' \<or> n0 = ''PRINT''"
  shows "match_token SORTED_TOKENS (k @ s) 0 = Some (n0, v0)"
    and "tokenize_line (k @ s) =
           v0 # 0x23 # tokenize_loop (k @ s) (length k) False False []"
proof -
  let ?t = "k @ s"
  have n0ne: "n0 \<noteq> []" using only by auto
  have l5: "length n0 = 5" using only by auto
  have up: "str_upper n0 = codepoints n0" using spellings_uppercase [OF n0] by simp
  have hash: "?t ! length n0 = CHR ''#''" by (simp add: k nth_append)
  have lt5: "length n0 < length ?t" by (simp add: k)
  have acc0: "accepts ?t 0 n0"
    using up hash lt5 by (simp add: accepts_def slice_def k py_isalnum_def py_isalpha_def py_ord_def)
  have uniq: "fst p = n0" if "p \<in> set SORTED_TOKENS" "accepts ?t 0 (fst p)" for p
  proof -
    have "(fst p, snd p) \<in> set TOKENS" using that(1) by (simp add: set_SORTED_TOKENS)
    from accepted_candidates [OF mem alpha sne ident this that(2)] only k show ?thesis by auto
  qed
  have "(n0, v0) \<in> set SORTED_TOKENS" using n0 by (simp add: set_SORTED_TOKENS)
  with acc0 have "List.find (\<lambda>p. accepts ?t 0 (fst p)) SORTED_TOKENS \<noteq> None"
    by (auto simp: find_None_iff)
  then obtain p where f: "List.find (\<lambda>p. accepts ?t 0 (fst p)) SORTED_TOKENS = Some p" by auto
  have pin: "p \<in> set TOKENS" using find_Some_mem [OF f] by (simp add: set_SORTED_TOKENS)
  have "fst p = n0" using find_Some_mem [OF f] find_Some_holds [OF f] by (rule uniq)
  then have fe: "fst p = fst (n0, v0)" by simp
  have inj: "inj_on fst (set TOKENS)" using distinct_spellings by (simp add: distinct_map)
  have "p = (n0, v0)" by (rule inj_onD [OF inj fe pin n0])
  with f show m: "match_token SORTED_TOKENS ?t 0 = Some (n0, v0)"
    by (simp add: match_token_find)
  have lt: "0 < length ?t" by (simp add: k)
  have "?t ! 0 = hd n0" using n0ne by (cases n0) (simp_all add: k)
  then have nq: "?t ! 0 \<noteq> CHR 0x22" using spellings_no_quote [OF n0] by simp
  have norem: "n0 \<noteq> ''REM''" using only by auto
  have sk: "skip_spaces ?t (0 + length n0) = length n0"
    using hash by (subst skip_spaces.simps) simp
  have "tokenize_loop ?t 0 False False [] =
          tokenize_loop ?t (skip_spaces ?t (0 + length n0)) False (n0 = ''REM'') ([] @ [v0])"
    using lt nq m by (intro loop_match) simp_all
  then have s1: "tokenize_loop ?t 0 False False [] = tokenize_loop ?t (length n0) False False [v0]"
    unfolding sk using norem by simp
  have nq5: "?t ! length n0 \<noteq> CHR 0x22" unfolding hash by simp
  have "tokenize_loop ?t (length n0) False False [v0] =
          tokenize_loop ?t (length n0 + 1) False False ([v0] @ [ord_byte (?t ! length n0)])"
    using lt5 nq5 no_match_at_hash [OF lt5 hash] by (intro loop_nomatch) simp_all
  also have "\<dots> = [v0, 0x23] @ tokenize_loop ?t (length n0 + 1) False False []"
    unfolding hash by (subst tokenize_loop_append) (simp add: ord_byte_def py_ord_def)
  finally have s2: "tokenize_loop ?t (length n0) False False [v0] =
                      [v0, 0x23] @ tokenize_loop ?t (length n0 + 1) False False []" .
  have "length k = length n0 + 1" by (simp add: k)
  with s1 s2 show "tokenize_line ?t = v0 # 0x23 # tokenize_loop ?t (length k) False False []"
    by (simp add: tokenize_line_def)
qed

text \<open>
  C3, as the program behaves. For every spelling \<open>k\<close> of the table that starts with a
  letter and every non-empty \<open>s\<close> whose first character is alphanumeric or one of
  \<^verbatim>\<open>$\<close> and \<^verbatim>\<open>%\<close>, the word check rejects the candidate \<open>k\<close> at position 0 of
  \<^verbatim>\<open>k + s\<close>. For every \<open>k\<close> other than \<^verbatim>\<open>INPUT#\<close> and \<^verbatim>\<open>PRINT#\<close> no candidate at
  all is matched there: the first character of \<open>k\<close> is copied as its literal byte and
  scanning goes on at position 1. For \<^verbatim>\<open>INPUT#\<close> and \<^verbatim>\<open>PRINT#\<close> the shorter keyword
  \<^verbatim>\<open>INPUT\<close> or \<^verbatim>\<open>PRINT\<close> is matched, since the \<^verbatim>\<open>#\<close> behind it is no identifier
  character: the output starts with 85 23 or 99 23 and scanning goes on at position 6.
  In no case does the output, which is not empty, start with the code of \<open>k\<close>. What
  follows is scanned as any other text. \<^verbatim>\<open>TOTAL\<close> comes out as its five literal bytes.
\<close>

theorem keyword_prefix_not_matched:
  assumes mem: "(k, v) \<in> set TOKENS" and alpha: "py_isalpha (hd k)" and sne: "s \<noteq> []"
    and ident: "py_isalnum (hd s) \<or> hd s \<in> set ''$%''"
  shows "\<not> accepts (k @ s) 0 k \<and>
         match_token SORTED_TOKENS (k @ s) 0 \<noteq> Some (k, v) \<and>
         match_token SORTED_TOKENS (k @ s) 0 =
           (if k = ''INPUT#'' then Some (''INPUT'', 0x85)
            else if k = ''PRINT#'' then Some (''PRINT'', 0x99)
            else None) \<and>
         tokenize_line (k @ s) =
           (if k = ''INPUT#'' then 0x85 # 0x23 # tokenize_loop (k @ s) 6 False False []
            else if k = ''PRINT#'' then 0x99 # 0x23 # tokenize_loop (k @ s) 6 False False []
            else ord_byte (hd k) # tokenize_loop (k @ s) 1 False False []) \<and>
         tokenize_line (k @ s) \<noteq> [] \<and> hd (tokenize_line (k @ s)) \<noteq> v \<and>
         tokenize_line ''TOTAL'' = map ord_byte ''TOTAL''"
proof -
  let ?t = "k @ s"
  have old: "\<not> accepts ?t 0 k \<and> match_token SORTED_TOKENS ?t 0 \<noteq> Some (k, v) \<and>
         tokenize_line ?t \<noteq> [] \<and> hd (tokenize_line ?t) \<noteq> v \<and>
         tokenize_line ''TOTAL'' = map ord_byte ''TOTAL''"
    using mem alpha sne ident by (rule keyword_rejected_at_start)
  have new: "match_token SORTED_TOKENS ?t 0 =
           (if k = ''INPUT#'' then Some (''INPUT'', 0x85)
            else if k = ''PRINT#'' then Some (''PRINT'', 0x99)
            else None) \<and>
         tokenize_line ?t =
           (if k = ''INPUT#'' then 0x85 # 0x23 # tokenize_loop ?t 6 False False []
            else if k = ''PRINT#'' then 0x99 # 0x23 # tokenize_loop ?t 6 False False []
            else ord_byte (hd k) # tokenize_loop ?t 1 False False [])"
  proof (cases "k = ''INPUT#'' \<or> k = ''PRINT#''")
    case False
    then have other: "k \<noteq> ''INPUT#''" "k \<noteq> ''PRINT#''" by simp_all
    have none: "match_token SORTED_TOKENS ?t 0 = None"
      using mem alpha sne ident other by (rule no_match_at_start)
    have kne: "k \<noteq> []"
      using mem tokens_nonempty [of "(k, v)"] by (simp add: set_SORTED_TOKENS)
    have lt: "0 < length ?t" using kne by simp
    have t0: "?t ! 0 = hd k" using kne by (cases k) simp_all
    have nq: "?t ! 0 \<noteq> CHR 0x22"
      using alpha unfolding t0 by (auto simp: py_isalpha_def py_ord_def)
    have "tokenize_loop ?t 0 False False [] =
            tokenize_loop ?t (0 + 1) False False ([] @ [ord_byte (?t ! 0)])"
      using lt nq none by (intro loop_nomatch) simp_all
    also have "\<dots> = [ord_byte (hd k)] @ tokenize_loop ?t (0 + 1) False False []"
      unfolding t0 by (subst tokenize_loop_append) simp
    finally have "tokenize_line ?t = ord_byte (hd k) # tokenize_loop ?t 1 False False []"
      by (simp add: tokenize_line_def)
    with none other show ?thesis by simp
  next
    case True
    then show ?thesis
    proof
      assume k: "k = ''INPUT#''"
      have n0: "(''INPUT'', 0x85) \<in> set TOKENS" by (simp add: TOKENS_def)
      have kk: "k = ''INPUT'' @ ''#''" using k by simp
      have l6: "length k = 6" using k by simp
      have only: "''INPUT'' = ''INPUT'' \<or> ''INPUT'' = ''PRINT''" by simp
      note r = shorter_keyword_at_start [OF mem alpha sne ident kk n0 only]
      from r(1) r(2) [unfolded l6] k show ?thesis by simp
    next
      assume k: "k = ''PRINT#''"
      have n0: "(''PRINT'', 0x99) \<in> set TOKENS" by (simp add: TOKENS_def)
      have kk: "k = ''PRINT'' @ ''#''" using k by simp
      have l6: "length k = 6" using k by simp
      have only: "''PRINT'' = ''INPUT'' \<or> ''PRINT'' = ''PRINT''" by simp
      note r = shorter_keyword_at_start [OF mem alpha sne ident kk n0 only]
      from r(1) r(2) [unfolded l6] k show ?thesis by simp
    qed
  qed
  from old new show ?thesis by blast
qed

lemma loop_digit_one: "tokenize_loop ''PRINT#1'' 6 False False [] = [0x31]"
  by (simp add: eval_defs)

text \<open>
  The spelling \<^verbatim>\<open>TO\<close> followed by \<^verbatim>\<open>TAL\<close>, and \<^verbatim>\<open>PRINT#\<close> followed by \<^verbatim>\<open>1\<close>, which
  gives 99 23 31.
\<close>

theorem keyword_prefix_not_matched_witness:
  "(''TO'', 0xA4) \<in> set TOKENS \<and> py_isalpha (hd ''TO'') \<and> ''TAL'' \<noteq> [] \<and>
   (py_isalnum (hd ''TAL'') \<or> hd ''TAL'' \<in> set ''$%'') \<and>
   match_token SORTED_TOKENS (''TO'' @ ''TAL'') 0 = None \<and>
   hd (tokenize_line (''TO'' @ ''TAL'')) = 0x54 \<and>
   (''PRINT#'', 0x98) \<in> set TOKENS \<and> py_isalpha (hd ''PRINT#'') \<and>
   (py_isalnum (hd ''1'') \<or> hd ''1'' \<in> set ''$%'') \<and>
   match_token SORTED_TOKENS (''PRINT#'' @ ''1'') 0 = Some (''PRINT'', 0x99) \<and>
   tokenize_line (''PRINT#'' @ ''1'') = [0x99, 0x23, 0x31]"
proof -
  have a: "(''TO'', 0xA4) \<in> set TOKENS" by (simp add: TOKENS_def)
  have b: "py_isalpha (hd ''TO'')" by (simp add: py_isalpha_def py_ord_def)
  have c: "''TAL'' \<noteq> []" by simp
  have d: "py_isalnum (hd ''TAL'') \<or> hd ''TAL'' \<in> set ''$%''"
    by (simp add: py_isalnum_def py_isalpha_def py_ord_def)
  have a': "(''PRINT#'', 0x98) \<in> set TOKENS" by (simp add: TOKENS_def)
  have b': "py_isalpha (hd ''PRINT#'')" by (simp add: py_isalpha_def py_ord_def)
  have c': "''1'' \<noteq> []" by simp
  have d': "py_isalnum (hd ''1'') \<or> hd ''1'' \<in> set ''$%''"
    by (simp add: py_isalnum_def py_isalpha_def py_ord_def)
  have e: "ord_byte (hd ''TO'') = 0x54" by (simp add: ord_byte_def py_ord_def)
  from keyword_prefix_not_matched [OF a b c d] keyword_prefix_not_matched [OF a' b' c' d'] a b c d a' b' d' e loop_digit_one
  show ?thesis by simp
qed

subsection \<open>The image built by \<^verbatim>\<open>create_prg\<close>\<close>

lemma pack_H_le16: "pack_H n = (if fits_H n then Inr (le16 n) else Inl StructError)"
  by (simp add: pack_H_def fits_H_def le16_def)

lemma length_le16 [simp]: "length (le16 n) = 2"
  by (simp add: le16_def)

lemma patch_slot_lo: "(prg @ a # rest)[length prg := x] = prg @ x # rest"
  by simp

lemma patch_slot_hi: "(prg @ a # b # rest)[Suc (length prg) := y] = prg @ a # y # rest"
  by (simp add: list_update_append)

lemma add_line_eq:
  "add_line load_addr prg (line_num, line_text) =
     (if fits_H line_num \<and>
         fits_H (load_addr + int (length prg + 5 + length (tokenize_line line_text)) - 2)
      then Inr (prg @ le16 (load_addr + int (length prg + 5 + length (tokenize_line line_text)) - 2)
                  @ le16 line_num @ tokenize_line line_text @ [0])
      else Inl StructError)"
  by (simp add: add_line.simps pack_H_le16 pack_into_H_def Let_def patch_slot_hi le16_def
        add.commute)


lemma records_Cons:
  "spec_records la off ((num, txt) # rest) =
     le16 (la + int (off + 5 + length (tokenize_line txt)) - 2) @ le16 num @
     tokenize_line txt @ [0] @ spec_records la (off + 5 + length (tokenize_line txt)) rest"
proof -
  have e: "off + 2 + 2 + length (tokenize_line txt) + 1 = off + 5 + length (tokenize_line txt)"
    by simp
  show ?thesis unfolding spec_records.simps Let_def e by simp
qed

lemma length_records_Cons:
  "length (spec_records la off ((num, txt) # rest)) =
     5 + length (tokenize_line txt) + length (spec_records la (off + 5 + length (tokenize_line txt)) rest)"
  unfolding records_Cons by simp

lemma build_lines_eq:
  assumes la: "0 \<le> la"
  shows "build_lines la prg ls =
     (if list_all (\<lambda>ln. fits_H (fst ln)) ls \<and>
         (ls = [] \<or> la + int (length prg + length (spec_records la (length prg) ls)) - 2 \<le> 65535)
      then Inr (prg @ spec_records la (length prg) ls) else Inl StructError)"
proof (induction ls arbitrary: prg)
  case Nil
  show ?case by simp
next
  case (Cons ln rest)
  obtain num body where ln: "ln = (num, body)" by (cases ln)
  let ?b = "tokenize_line body"
  let ?link = "la + int (length prg + 5 + length ?b) - 2"
  let ?prg' = "prg @ le16 ?link @ le16 num @ ?b @ [0]"
  have len': "length ?prg' = length prg + 5 + length ?b" by simp
  show ?case
  proof (cases "fits_H num \<and> fits_H ?link")
    case False
    have l: "build_lines la prg (ln # rest) = Inl StructError"
      using False by (auto simp: ln add_line_eq)
    have c: "\<not> (list_all (\<lambda>ln. fits_H (fst ln)) (ln # rest) \<and>
         (ln # rest = [] \<or>
          la + int (length prg + length (spec_records la (length prg) (ln # rest))) - 2 \<le> 65535))"
      using False la by (auto simp: ln fits_H_def length_records_Cons simp del: spec_records.simps(2))
    show ?thesis unfolding l if_not_P [OF c] ..
  next
    case True
    then have step: "build_lines la prg (ln # rest) = build_lines la ?prg' rest"
      by (simp add: ln add_line_eq)
    have cond: "(rest = [] \<or> la + int (length ?prg' + length (spec_records la (length ?prg') rest)) - 2 \<le> 65535)
        \<longleftrightarrow> la + int (length prg + length (spec_records la (length prg) (ln # rest))) - 2 \<le> 65535"
      using True
      by (cases rest) (auto simp: ln fits_H_def length_records_Cons simp del: spec_records.simps(2))
    have res: "?prg' @ spec_records la (length ?prg') rest = prg @ spec_records la (length prg) (ln # rest)"
      unfolding len' by (simp add: ln records_Cons del: spec_records.simps(2))
    show ?thesis
      unfolding step Cons.IH [of ?prg'] cond res using True
      by (simp add: ln del: spec_records.simps(2))
  qed
qed

lemma create_prg_eq:
  "create_prg ls la = (if buildable ls la then Inr (spec_prg_layout ls la) else Inl StructError)"
proof (cases "fits_H la")
  case False
  then show ?thesis by (simp add: create_prg_def pack_H_le16 buildable_def)
next
  case True
  then have "0 \<le> la" by (simp add: fits_H_def)
  from build_lines_eq [OF this, of "le16 la" ls] True show ?thesis
    by (simp add: create_prg_def pack_H_le16 buildable_def spec_prg_layout_def)
qed


lemma uint_le16:
  assumes "fits_H n"
  shows "uint (word_of_int (n mod 256) :: byte) + 256 * uint (word_of_int (n div 256) :: byte) = n"
proof -
  have lo: "uint (word_of_int (n mod 256) :: byte) = n mod 256"
    by (simp add: uint_word_of_int take_bit_eq_mod)
  from assms have n: "0 \<le> n" "n \<le> 65535" by (simp_all add: fits_H_def)
  then have "0 \<le> n div 256" and "n div 256 < 256" by arith+
  then have hi: "uint (word_of_int (n div 256) :: byte) = n div 256"
    by (simp add: uint_word_of_int take_bit_eq_mod)
  show ?thesis unfolding lo hi by simp
qed

lemma link_at_le16:
  assumes "fits_H n"
  shows "link_at (pre @ le16 n @ rest) (length pre) = n"
proof -
  have "(pre @ le16 n @ rest) ! length pre = word_of_int (n mod 256)"
    by (simp add: le16_def)
  moreover have "(pre @ le16 n @ rest) ! (length pre + 1) = word_of_int (n div 256)"
    by (simp add: le16_def nth_append)
  ultimately show ?thesis using uint_le16 [OF assms] by (simp add: link_at_def)
qed

lemma link_at_sentinel: "link_at (pre @ [0, 0]) (length pre) = 0"
  by (simp add: link_at_def nth_append)

lemma record_offsets_Cons:
  "record_offsets off ((num, txt) # rest) =
     off # record_offsets (off + 5 + length (tokenize_line txt)) rest"
  by simp

lemma record_offsets_hd: "record_offsets off ls ! 0 = off"
  by (cases ls) auto

lemma record_offsets_last:
  "record_offsets off ls ! length ls = off + length (spec_records la off ls)"
proof (induction ls arbitrary: off)
  case Nil
  show ?case by simp
next
  case (Cons ln rest)
  obtain num body where ln: "ln = (num, body)" by (cases ln)
  show ?case
    using Cons [of "off + 5 + length (tokenize_line body)"]
    by (simp add: ln length_records_Cons del: spec_records.simps(2))
qed

lemma links_nth:
  assumes "img = pre @ spec_records la (length pre) ls @ post" and "0 \<le> la"
    and "la + int (length pre + length (spec_records la (length pre) ls)) - 2 \<le> 65535"
    and "k < length ls"
  shows "link_at img (record_offsets (length pre) ls ! k) =
           la + int (record_offsets (length pre) ls ! Suc k) - 2 \<and>
         record_offsets (length pre) ls ! k < record_offsets (length pre) ls ! Suc k \<and>
         take 2 (drop (record_offsets (length pre) ls ! k + 2) img) = le16 (fst (ls ! k))"
  using assms
proof (induction ls arbitrary: pre k)
  case Nil
  then show ?case by simp
next
  case (Cons ln rest)
  obtain num body where ln: "ln = (num, body)" by (cases ln)
  let ?b = "tokenize_line body"
  let ?link = "la + int (length pre + 5 + length ?b) - 2"
  let ?pre' = "pre @ le16 ?link @ le16 num @ ?b @ [0]"
  have len': "length ?pre' = length pre + 5 + length ?b" by simp
  have img: "img = pre @ le16 ?link @ (le16 num @ ?b @ [0] @
               spec_records la (length pre + 5 + length ?b) rest @ post)"
    using Cons.prems(1) by (simp add: ln records_Cons del: spec_records.simps(2))
  have bound: "la + int (length pre + 5 + length ?b +
                 length (spec_records la (length pre + 5 + length ?b) rest)) - 2 \<le> 65535"
    using Cons.prems(3) by (simp add: ln length_records_Cons del: spec_records.simps(2))
  show ?case
  proof (cases k)
    case 0
    have "fits_H ?link" using bound Cons.prems(2) by (simp add: fits_H_def)
    then have "link_at img (length pre) = ?link"
      unfolding img by (rule link_at_le16)
    moreover have "take 2 (drop (length pre + 2) img) = le16 num"
      unfolding img by (simp add: le16_def)
    ultimately show ?thesis
      using 0 by (simp add: ln record_offsets_hd)
  next
    case (Suc k')
    have img': "img = ?pre' @ spec_records la (length ?pre') rest @ post"
      unfolding len' using img by simp
    have bound': "la + int (length ?pre' + length (spec_records la (length ?pre') rest)) - 2 \<le> 65535"
      unfolding len' using bound by simp
    have "k' < length rest" using Cons.prems(4) Suc by simp
    from Cons.IH [OF img' Cons.prems(2) bound' this]
    show ?thesis unfolding len' using Suc by (simp add: ln)
  qed
qed

lemma follow_links_records:
  assumes "img = pre @ spec_records la (length pre) ls @ [0, 0]" and "0 \<le> la"
    and "la + int (length pre + length (spec_records la (length pre) ls)) - 2 \<le> 65535"
  shows "follow_links img la (length ls) (la + int (length pre) - 2) =
           Some (la + int (length pre + length (spec_records la (length pre) ls)) - 2)"
  using assms
proof (induction ls arbitrary: pre)
  case Nil
  then show ?case by simp
next
  case (Cons ln rest)
  obtain num body where ln: "ln = (num, body)" by (cases ln)
  let ?b = "tokenize_line body"
  let ?link = "la + int (length pre + 5 + length ?b) - 2"
  let ?pre' = "pre @ le16 ?link @ le16 num @ ?b @ [0]"
  have len': "length ?pre' = length pre + 5 + length ?b" by simp
  have img: "img = pre @ le16 ?link @ (le16 num @ ?b @ [0] @
               spec_records la (length pre + 5 + length ?b) rest @ [0, 0])"
    using Cons.prems(1) by (simp add: ln records_Cons del: spec_records.simps(2))
  have bound: "la + int (length pre + 5 + length ?b +
                 length (spec_records la (length pre + 5 + length ?b) rest)) - 2 \<le> 65535"
    using Cons.prems(3) by (simp add: ln length_records_Cons del: spec_records.simps(2))
  have limg: "length img = length pre + 5 + length ?b +
                 length (spec_records la (length pre + 5 + length ?b) rest) + 2"
    unfolding img by simp
  have "fits_H ?link" using bound Cons.prems(2) by (simp add: fits_H_def)
  then have link: "link_at img (length pre) = ?link"
    unfolding img by (rule link_at_le16)
  have img': "img = ?pre' @ spec_records la (length ?pre') rest @ [0, 0]"
    unfolding len' using img by simp
  have bound': "la + int (length ?pre' + length (spec_records la (length ?pre') rest)) - 2 \<le> 65535"
    unfolding len' using bound by simp
  have ih: "follow_links img la (length rest) ?link =
              Some (la + int (length pre + 5 + length ?b +
                 length (spec_records la (length pre + 5 + length ?b) rest)) - 2)"
    using Cons.IH [OF img' Cons.prems(2) bound'] unfolding len' by simp
  have off: "la + int (length pre) - 2 - la + 2 = int (length pre)" by simp
  have e: "?link - la + 2 = int (length pre + 5 + length ?b)" by simp
  have c1: "0 \<le> int (length pre) \<and> length pre + 1 < length img" using limg by simp
  have c2: "?link \<noteq> 0" using Cons.prems(2) by simp
  have c3: "\<not> ?link \<le> la + int (length pre) - 2" by simp
  have c4: "\<not> length img \<le> length pre + 5 + length ?b + 1" using limg by simp
  have step: "follow_links img la (Suc (length rest)) (la + int (length pre) - 2) =
                follow_links img la (length rest) ?link"
    unfolding follow_links.simps Let_def off nat_int link e
      if_P [OF c1] if_not_P [OF c2] if_not_P [OF c3] if_not_P [OF c4] ..
  show ?case
    using step ih by (simp add: ln length_records_Cons del: spec_records.simps(2) follow_links.simps)
qed


lemma tokenize_line_empty: "tokenize_line [] = []"
  by (simp add: tokenize_line_def tokenize_loop.simps)

text \<open>
  C9. Whenever \<^verbatim>\<open>create_prg\<close> returns, which it does exactly on the inputs whose load
  address, line numbers and links fit 16 bits (on the others \<^verbatim>\<open>struct.pack\<close> raises),
  the image is the layout of the specification: the two bytes of the load address; for
  each line, in input order, the two bytes of the link, the two bytes of the line number,
  the tokenized statement and one zero byte; and two zero bytes at the end. A line with
  empty text contributes its link, its line number and the zero byte, five bytes in all.
\<close>

theorem create_prg_layout:
  "create_prg basic_lines load_addr =
     (if buildable basic_lines load_addr then Inr (spec_prg_layout basic_lines load_addr)
      else Inl StructError) \<and>
   spec_prg_layout basic_lines load_addr = le16 load_addr @ spec_records load_addr 2 basic_lines @ [0, 0] \<and>
   spec_records load_addr off [] = [] \<and>
   spec_records load_addr off ((line_num, line_text) # rest) =
     le16 (load_addr + int (off + 5 + length (tokenize_line line_text)) - 2) @ le16 line_num @
     tokenize_line line_text @ [0] @
     spec_records load_addr (off + 5 + length (tokenize_line line_text)) rest \<and>
   spec_records load_addr off ((line_num, []) # rest) =
     le16 (load_addr + int (off + 5) - 2) @ le16 line_num @ [0] @ spec_records load_addr (off + 5) rest"
proof (intro conjI)
  show "create_prg basic_lines load_addr =
     (if buildable basic_lines load_addr then Inr (spec_prg_layout basic_lines load_addr)
      else Inl StructError)"
    by (rule create_prg_eq)
  show "spec_prg_layout basic_lines load_addr = le16 load_addr @ spec_records load_addr 2 basic_lines @ [0, 0]"
    by (rule spec_prg_layout_def)
  show "spec_records load_addr off [] = []" by simp
  show "spec_records load_addr off ((line_num, line_text) # rest) =
     le16 (load_addr + int (off + 5 + length (tokenize_line line_text)) - 2) @ le16 line_num @
     tokenize_line line_text @ [0] @
     spec_records load_addr (off + 5 + length (tokenize_line line_text)) rest"
    by (rule records_Cons)
  show "spec_records load_addr off ((line_num, []) # rest) =
     le16 (load_addr + int (off + 5) - 2) @ le16 line_num @ [0] @ spec_records load_addr (off + 5) rest"
    unfolding records_Cons tokenize_line_empty by simp
qed

text \<open>The single line \<^verbatim>\<open>(5, "")\<close> at the load address 0x0401.\<close>

theorem create_prg_layout_witness:
  "buildable [(5, [])] 0x0401 \<and>
   create_prg [(5, [])] 0x0401 = Inr [0x01, 0x04, 0x06, 0x04, 0x05, 0x00, 0x00, 0x00, 0x00]"
proof -
  have b: "buildable [(5, [])] 0x0401"
    by (simp add: buildable_def fits_H_def spec_prg_layout_def tokenize_line_empty)
  from create_prg_layout [of "[(5, [])]" "0x0401"] b show ?thesis
    by (simp add: spec_prg_layout_def le16_def tokenize_line_empty)
qed

subsection \<open>The chain of forward links\<close>

text \<open>
  C1. In every image that \<^verbatim>\<open>create_prg\<close> returns for \<open>N\<close> lines, the link stored in the
  record of line \<open>k\<close> is the memory address (load address plus file offset minus 2) of
  the next record, and for the last line that of the sentinel. Each record starts before
  the next and holds the number of its line after the link; the first starts at file
  offset 2; the sentinel occupies the last two bytes and reads 0. Following the links
  from the load address makes \<open>N\<close> hops, each over a link that is not 0, points strictly
  forward and stays inside the image, and ends at the address of the sentinel. (The
  statement also covers \<open>N = 0\<close>.)
\<close>

theorem forward_links_chain:
  assumes "create_prg basic_lines load_addr = Inr img"
  shows "(\<forall>k<length basic_lines.
            link_at img (record_offsets 2 basic_lines ! k) =
              load_addr + int (record_offsets 2 basic_lines ! Suc k) - 2 \<and>
            record_offsets 2 basic_lines ! k < record_offsets 2 basic_lines ! Suc k \<and>
            take 2 (drop (record_offsets 2 basic_lines ! k + 2) img) = le16 (fst (basic_lines ! k))) \<and>
         record_offsets 2 basic_lines ! 0 = 2 \<and>
         record_offsets 2 basic_lines ! length basic_lines + 2 = length img \<and>
         link_at img (record_offsets 2 basic_lines ! length basic_lines) = 0 \<and>
         follow_links img load_addr (length basic_lines) load_addr =
           Some (load_addr + int (record_offsets 2 basic_lines ! length basic_lines) - 2)"
proof -
  let ?recs = "spec_records load_addr 2 basic_lines"
  let ?pre = "le16 load_addr"
  from assms have ok: "buildable basic_lines load_addr"
    and img0: "img = spec_prg_layout basic_lines load_addr"
    by (auto simp: create_prg_eq split: if_splits)
  have lp: "length ?pre = 2" by simp
  have img: "img = ?pre @ spec_records load_addr (length ?pre) basic_lines @ [0, 0]"
    unfolding lp img0 by (simp add: spec_prg_layout_def)
  from ok have la: "0 \<le> load_addr" "load_addr \<le> 65535"
    by (simp_all add: buildable_def fits_H_def)
  have limg: "length img = 2 + length ?recs + 2"
    unfolding img0 by (simp add: spec_prg_layout_def)
  have bound: "load_addr + int (length ?pre + length (spec_records load_addr (length ?pre) basic_lines)) - 2
                 \<le> 65535"
  proof (cases "basic_lines = []")
    case True
    with la show ?thesis by simp
  next
    case False
    with ok have "load_addr + int (length (spec_prg_layout basic_lines load_addr)) - 4 \<le> 65535"
      by (simp add: buildable_def)
    then show ?thesis unfolding lp by (simp add: spec_prg_layout_def)
  qed
  have last: "record_offsets 2 basic_lines ! length basic_lines = 2 + length ?recs"
    by (rule record_offsets_last)
  have links: "\<forall>k<length basic_lines.
            link_at img (record_offsets 2 basic_lines ! k) =
              load_addr + int (record_offsets 2 basic_lines ! Suc k) - 2 \<and>
            record_offsets 2 basic_lines ! k < record_offsets 2 basic_lines ! Suc k \<and>
            take 2 (drop (record_offsets 2 basic_lines ! k + 2) img) = le16 (fst (basic_lines ! k))"
    using links_nth [OF img la(1) bound] unfolding lp by blast
  have "img = (?pre @ ?recs) @ [0, 0]" unfolding img0 by (simp add: spec_prg_layout_def)
  then have "link_at img (length (?pre @ ?recs)) = 0"
    using link_at_sentinel [of "?pre @ ?recs"] by simp
  then have sent: "link_at img (record_offsets 2 basic_lines ! length basic_lines) = 0"
    unfolding last by simp
  have "follow_links img load_addr (length basic_lines) (load_addr + int (length ?pre) - 2) =
          Some (load_addr + int (length ?pre + length (spec_records load_addr (length ?pre) basic_lines)) - 2)"
    using img la(1) bound by (rule follow_links_records)
  then have chain: "follow_links img load_addr (length basic_lines) load_addr =
           Some (load_addr + int (record_offsets 2 basic_lines ! length basic_lines) - 2)"
    unfolding lp last by simp
  show ?thesis
    using links sent chain limg last by (simp add: record_offsets_hd)
qed

lemma tok_quoted_a: \<open>tokenize_line ''"A"'' = [0x22, 0x41, 0x22]\<close>
  by (simp add: tokenize_line_def tokenize_loop.simps ord_byte_def py_ord_def Let_def)

lemma quoted_a_image:
  \<open>create_prg [(10, ''"A"''), (20, [])] 0x0401 =
     Inr [0x01, 0x04, 0x09, 0x04, 0x0A, 0x00, 0x22, 0x41, 0x22, 0x00,
          0x0E, 0x04, 0x14, 0x00, 0x00, 0x00, 0x00]\<close>
  by (simp add: create_prg_def add_line.simps pack_H_def pack_into_H_def tok_quoted_a
        tokenize_line_empty)

text \<open>Two lines, the first a quoted \<^verbatim>\<open>A\<close>, the second empty: links 0x0409 and 0x040E.\<close>

theorem forward_links_chain_witness:
  \<open>create_prg [(10, ''"A"''), (20, [])] 0x0401 =
     Inr [0x01, 0x04, 0x09, 0x04, 0x0A, 0x00, 0x22, 0x41, 0x22, 0x00,
          0x0E, 0x04, 0x14, 0x00, 0x00, 0x00, 0x00] \<and>
   record_offsets 2 [(10, ''"A"''), (20, [])] = [2, 10, 15] \<and>
   link_at [0x01, 0x04, 0x09, 0x04, 0x0A, 0x00, 0x22, 0x41, 0x22, 0x00,
            0x0E, 0x04, 0x14, 0x00, 0x00, 0x00, 0x00] 2 = 0x0409 \<and>
   link_at [0x01, 0x04, 0x09, 0x04, 0x0A, 0x00, 0x22, 0x41, 0x22, 0x00,
            0x0E, 0x04, 0x14, 0x00, 0x00, 0x00, 0x00] 10 = 0x040E \<and>
   link_at [0x01, 0x04, 0x09, 0x04, 0x0A, 0x00, 0x22, 0x41, 0x22, 0x00,
            0x0E, 0x04, 0x14, 0x00, 0x00, 0x00, 0x00] 15 = 0 \<and>
   follow_links [0x01, 0x04, 0x09, 0x04, 0x0A, 0x00, 0x22, 0x41, 0x22, 0x00,
                 0x0E, 0x04, 0x14, 0x00, 0x00, 0x00, 0x00] 0x0401 (Suc (Suc 0)) 0x0401
     = Some 0x040E\<close>
proof -
  let ?img = "[0x01, 0x04, 0x09, 0x04, 0x0A, 0x00, 0x22, 0x41, 0x22, 0x00,
               0x0E, 0x04, 0x14, 0x00, 0x00, 0x00, 0x00] :: byte list"
  have offs: \<open>record_offsets 2 [(10, ''"A"''), (20, [])] = [2, 10, 15]\<close>
    by (simp add: tok_quoted_a tokenize_line_empty)
  have l: "link_at ?img 2 = 0x0409" "link_at ?img 10 = 0x040E" "link_at ?img 15 = 0"
    by (simp_all add: link_at_def)
  from forward_links_chain [OF quoted_a_image]
  have \<open>follow_links ?img 0x0401 (length [(10 :: int, ''"A"''), (20, [])]) 0x0401 =
          Some (0x0401 + int (record_offsets 2 [(10, ''"A"''), (20, [])] !
                  length [(10 :: int, ''"A"''), (20, [])]) - 2)\<close>
    by blast
  then have "follow_links ?img 0x0401 (Suc (Suc 0)) 0x0401 = Some 0x040E"
    unfolding offs by (simp del: follow_links.simps)
  with quoted_a_image offs l show ?thesis by blast
qed

subsection \<open>No input lines\<close>

lemma built_image_has_record:
  assumes "create_prg basic_lines load_addr = Inr img" and "basic_lines \<noteq> []"
  shows "9 \<le> length img"
proof -
  from assms(1) have img: "img = spec_prg_layout basic_lines load_addr"
    by (auto simp: create_prg_eq split: if_splits)
  obtain num body rest where "basic_lines = (num, body) # rest"
    using assms(2) by (cases basic_lines) auto
  then show ?thesis
    unfolding img spec_prg_layout_def by (simp add: records_Cons del: spec_records.simps(2))
qed

text \<open>
  C8. With no parsed line the program prints its message and leaves with exit status 1
  before it builds or writes anything. It leaves that way for the empty list only. On no
  input does it write the four bytes 01 04 00 00, load address and sentinel alone:
  \<^verbatim>\<open>create_prg\<close> is reached only with at least one line, and every image it returns then
  holds a record.
\<close>

theorem empty_input_is_usage_error:
  "main_build [] = Exit 1 \<and>
   (main_build basic_lines = Exit 1) = (basic_lines = []) \<and>
   main_build basic_lines \<noteq> Written [0x01, 0x04, 0x00, 0x00]"
proof (intro conjI)
  show "main_build [] = Exit 1" by (simp add: main_build_def)
  show "(main_build basic_lines = Exit 1) = (basic_lines = [])"
    by (cases "create_prg basic_lines 0x0401") (simp_all add: main_build_def)
  show "main_build basic_lines \<noteq> Written [0x01, 0x04, 0x00, 0x00]"
  proof (cases "basic_lines = []")
    case True
    then show ?thesis by (simp add: main_build_def)
  next
    case False
    show ?thesis
    proof (cases "create_prg basic_lines 0x0401")
      case (Inl e)
      with False show ?thesis by (simp add: main_build_def)
    next
      case (Inr img)
      from built_image_has_record [OF Inr False] have "img \<noteq> [0x01, 0x04, 0x00, 0x00]" by auto
      with False Inr show ?thesis by (simp add: main_build_def)
    qed
  qed
qed

end
